theory Spec2Isabelle
  imports Main "HOL-Library.AList"
begin

section \<open>Data model of the reloadable module controller\<close>

text \<open>
  Controllers and module instances are JavaScript objects that are compared by identity and
  mutated in place, and one instance can sit in several slots of a controller at once.  The
  embedding therefore uses an explicit store: a controller is named by the number of its URL
  (\<open>acquire\<close> interns one controller per URL), an instance by the number it got when it was
  constructed, and the world maps both kinds of names to the objects' fields.
\<close>

type_synonym cid = nat
type_synonym iid = nat

datatype error = AssertionError | SyntaxError cid | UserError nat

text \<open>
  The binding entries of \<open>binding.ts\<close> are only declared outside the available sources.
  \<open>load\<close> distinguishes three of their tags and reads \<open>name\<close> and \<open>as\<close>; every other entry
  is an import of a name.
\<close>

datatype BindingEntry =
    ImportEntry string
  | ExportIndirectEntry string "string option"
  | ExportIndirectStarEntry string
  | ExportStarEntry

record LoadedModuleRequestEntry =
  controller :: cid
  reloadable :: bool
  bindings :: "BindingEntry list"

text \<open>
  What the registrations of \<open>import.meta.hot\<close> of one instance amount to: the bare
  \<open>accept()\<close> and whether its callback goes through, the accepted dependencies with the
  outcome of their callbacks, \<open>decline()\<close>, \<open>invalidate()\<close>, and what the \<open>dispose\<close> and
  \<open>prune\<close> callbacks do (the payload handed to the successor, or the error thrown).
\<close>

record Hot =
  acceptsSelf :: bool
  acceptSelfOk :: bool
  accepts :: "(cid \<times> bool) list"
  declines :: bool
  invalidates :: bool
  onDispose :: "error + nat option"
  onPrune :: "error option"

text \<open>
  A module body is user code.  It is represented by what running it does: the error it
  throws (if any), the controllers it imports dynamically, and the hot registrations it makes.
\<close>

record ModuleBody =
  throws :: "error option"
  importsDynamically :: "cid list"
  registers :: Hot

record ModuleDeclaration =
  declId :: nat
  body :: ModuleBody
  meta :: "nat option"
  format :: string
  importAssertions :: "(string \<times> string) list"
  usesDynamicImport :: bool
  indirectExportEntries :: "(string \<times> LoadedModuleRequestEntry \<times> BindingEntry) list"
  starExportEntries :: "(LoadedModuleRequestEntry \<times> BindingEntry) list"
  loadedModules :: "LoadedModuleRequestEntry list"

datatype ModuleStatus = New | Linked | Evaluated

record ReloadableModuleInstance =
  moduleDeclaration :: ModuleDeclaration
  status :: ModuleStatus
  instantiated :: bool
  disposeData :: "nat option"
  evaluationError :: "error option"
  dynamicImports :: "cid list"
  hot :: Hot

record ReloadableModuleController =
  current :: "iid option"
  pending :: "iid option"
  previous :: "iid option"
  staging :: "iid option"
  temporary :: "iid option"
  fatalError :: "error option"
  version :: nat

datatype event =
    Evaluate iid
  | Dispose iid
  | Prune iid
  | TryAccept iid "cid list"
  | TryAcceptSelf iid iid

text \<open>
  The world: the controllers, the instances, the counter that names the next object, the
  user callbacks run so far (in order), the URLs handed to the host's \<open>evictModule\<close> hook,
  whether the host provides that hook, and the host's name resolution, which decides for a
  declaration and the declarations selected for the other controllers whether linking fails.
\<close>

record world =
  controllers :: "cid \<Rightarrow> ReloadableModuleController"
  instances :: "iid \<Rightarrow> ReloadableModuleInstance"
  nextId :: nat
  trace :: "event list"
  evicted :: "(cid \<times> nat) list"
  evictModule :: bool
  resolution :: "(cid \<Rightarrow> ModuleDeclaration option) \<Rightarrow> ModuleDeclaration \<Rightarrow> error option"

definition noHot :: Hot where
  "noHot = \<lparr> acceptsSelf = False, acceptSelfOk = True, accepts = [], declines = False,
     invalidates = False, onDispose = Inr None, onPrune = None \<rparr>"

text \<open>The constructor of \<open>ReloadableModuleInstance\<close>: a new, unlinked instance of a declaration.\<close>

definition newInstance :: "ModuleDeclaration \<Rightarrow> ReloadableModuleInstance" where
  "newInstance d = \<lparr> moduleDeclaration = d, status = New, instantiated = False, disposeData = None,
     evaluationError = None, dynamicImports = [], hot = noHot \<rparr>"

definition setController ::
  "cid \<Rightarrow> (ReloadableModuleController \<Rightarrow> ReloadableModuleController) \<Rightarrow> world \<Rightarrow> world" where
  "setController c f w = w\<lparr> controllers := (controllers w)(c := f (controllers w c)) \<rparr>"

definition setInstance ::
  "iid \<Rightarrow> (ReloadableModuleInstance \<Rightarrow> ReloadableModuleInstance) \<Rightarrow> world \<Rightarrow> world" where
  "setInstance i f w = w\<lparr> instances := (instances w)(i := f (instances w i)) \<rparr>"

definition allocate :: "ReloadableModuleInstance \<Rightarrow> world \<Rightarrow> iid \<times> world" where
  "allocate inst w =
     (nextId w, w\<lparr> instances := (instances w)(nextId w := inst), nextId := Suc (nextId w) \<rparr>)"

section \<open>load\<close>

text \<open>
  The two generators of \<open>load\<close>.  \<open>new Map(entries)\<close> keeps the first position of a key and
  the last value written to it, which is what \<open>AList.update\<close> does.
\<close>

definition isIndirect :: "BindingEntry \<Rightarrow> bool" where
  "isIndirect b = (case b of ExportIndirectEntry _ _ \<Rightarrow> True
     | ExportIndirectStarEntry _ \<Rightarrow> True | _ \<Rightarrow> False)"

definition exportedAs :: "BindingEntry \<Rightarrow> string" where
  "exportedAs b = (case b of
       ExportIndirectStarEntry as \<Rightarrow> as
     | ExportIndirectEntry name as \<Rightarrow> (case as of Some a \<Rightarrow> a | None \<Rightarrow> name)
     | ImportEntry name \<Rightarrow> name
     | ExportStarEntry \<Rightarrow> [])"

definition indirectEntriesOf ::
  "LoadedModuleRequestEntry list \<Rightarrow> (string \<times> LoadedModuleRequestEntry \<times> BindingEntry) list" where
  "indirectEntriesOf lms =
     fold (\<lambda>(k, v) m. AList.update k v m)
       (concat (map (\<lambda>moduleRequest.
          map (\<lambda>binding. (exportedAs binding, (moduleRequest, binding)))
            (filter isIndirect (bindings moduleRequest))) lms)) []"

definition starEntriesOf ::
  "LoadedModuleRequestEntry list \<Rightarrow> (LoadedModuleRequestEntry \<times> BindingEntry) list" where
  "starEntriesOf lms =
     concat (map (\<lambda>moduleRequest.
       map (\<lambda>binding. (moduleRequest, binding))
         (filter (\<lambda>b. b = ExportStarEntry) (bindings moduleRequest))) lms)"

definition load ::
  "cid \<Rightarrow> ModuleBody \<Rightarrow> nat option \<Rightarrow> bool \<Rightarrow> string \<Rightarrow> (string \<times> string) list \<Rightarrow>
   LoadedModuleRequestEntry list \<Rightarrow> world \<Rightarrow> world" where
  "load this body' meta' usesDynamicImport' format' importAssertions' loadedModules' w =
     (let w1 = (if evictModule w \<and> version (controllers w this) \<noteq> 0
                then w\<lparr> evicted := evicted w @ [(this, version (controllers w this))] \<rparr>
                else w);
          declaration' = \<lparr> declId = nextId w1, body = body', meta = meta', format = format',
            importAssertions = importAssertions', usesDynamicImport = usesDynamicImport',
            indirectExportEntries = indirectEntriesOf loadedModules',
            starExportEntries = starEntriesOf loadedModules',
            loadedModules = loadedModules' \<rparr>;
          w2 = w1\<lparr> nextId := Suc (nextId w1) \<rparr>;
          (i, w3) = allocate (newInstance declaration') w2
      in setController this (\<lambda>c. c\<lparr> staging := Some i \<rparr>) w3)"

section \<open>Selectors and child iteration\<close>

type_synonym selector = "ReloadableModuleController \<Rightarrow> iid option"

definition selectCurrent :: selector where
  "selectCurrent c = current c"

text \<open>\<open>select\<close> asserts that the selected slot is filled.\<close>

definition select :: "selector \<Rightarrow> cid \<Rightarrow> world \<Rightarrow> error + iid" where
  "select sel this w = (case sel (controllers w this) of
       None \<Rightarrow> Inl AssertionError
     | Some instance \<Rightarrow> Inr instance)"

definition iterate :: "selector \<Rightarrow> cid \<Rightarrow> world \<Rightarrow> error + cid list" where
  "iterate sel this w = (case select sel this w of
       Inl e \<Rightarrow> Inl e
     | Inr i \<Rightarrow> Inr (map controller
         (filter reloadable (loadedModules (moduleDeclaration (instances w i))))))"

definition iterateWithDynamics :: "selector \<Rightarrow> selector \<Rightarrow> cid \<Rightarrow> world \<Rightarrow> error + cid list" where
  "iterateWithDynamics sel selectDynamic this w = (case iterate sel this w of
       Inl e \<Rightarrow> Inl e
     | Inr static \<Rightarrow> (case select selectDynamic this w of
           Inl e \<Rightarrow> Inl e
         | Inr instance \<Rightarrow> Inr (static @ dynamicImports (instances w instance))))"


section \<open>The traversal primitive\<close>

text \<open>
  Modelled from the spec: \<open>traverseDepthFirst\<close> of \<open>traverse.ts\<close>, which is not among the
  sources.  Section 4.1 of the specification describes it: a depth-first walk that groups the
  nodes into strongly connected components in Tarjan's manner; \<open>visitPre\<close> is called on
  descent and returns the children; \<open>visitPost\<close> is called once per component, in post-order,
  with the component's nodes (in the order in which they come off the stack, the node that
  was discovered last first) and the result of each successor component, once; when
  \<open>visitPost\<close> throws, \<open>onCancel\<close> gets the nodes that were descended into and not yet
  post-visited.  The walk is cut off by a depth bound (the fuel):
  \<open>None\<close> means that the bound was too small.
\<close>

record 'r NodeState =
  nodeIndex :: nat
  ancestorIndex :: nat
  forwards :: "(cid \<times> 'r) list"
  nodeResult :: "'r option"
  componentRoot :: cid

record 'r Traversal =
  counter :: nat
  stack :: "cid list"
  visited :: "cid \<Rightarrow> 'r NodeState option"

definition emptyTraversal :: "'r Traversal" where
  "emptyTraversal = \<lparr> counter = 0, stack = [], visited = (\<lambda>_. None) \<rparr>"

definition enter :: "cid \<Rightarrow> 'r Traversal \<Rightarrow> 'r Traversal" where
  "enter n t = \<lparr> counter = Suc (counter t), stack = n # stack t,
     visited = (visited t)(n \<mapsto> \<lparr> nodeIndex = counter t, ancestorIndex = counter t,
       forwards = [], nodeResult = None, componentRoot = n \<rparr>) \<rparr>"

definition updateNode :: "cid \<Rightarrow> ('r NodeState \<Rightarrow> 'r NodeState) \<Rightarrow> 'r Traversal \<Rightarrow> 'r Traversal" where
  "updateNode n f t = (case visited t n of
       None \<Rightarrow> t
     | Some st \<Rightarrow> t\<lparr> visited := (visited t)(n \<mapsto> f st) \<rparr>)"

text \<open>The results of the successor components gathered at a node, each under the root of
  its component and each once.\<close>

definition addForward :: "cid \<times> 'r \<Rightarrow> (cid \<times> 'r) list \<Rightarrow> (cid \<times> 'r) list" where
  "addForward kv xs = (if fst kv \<in> fst ` set xs then xs else xs @ [kv])"

text \<open>What a parent learns from a child: the result of a finished component, or, from a child
  that is still on the stack, how far up the component reaches and the results gathered so far.\<close>

definition absorb :: "bool \<Rightarrow> cid \<Rightarrow> 'r NodeState \<Rightarrow> 'r Traversal \<Rightarrow> 'r Traversal" where
  "absorb returned n child t = (case nodeResult child of
       Some r \<Rightarrow> updateNode n (\<lambda>st. st\<lparr> forwards := addForward (componentRoot child, r) (forwards st) \<rparr>) t
     | None \<Rightarrow>
         if returned
         then updateNode n (\<lambda>st. st\<lparr> ancestorIndex := min (ancestorIndex st) (ancestorIndex child),
                forwards := fold addForward (forwards child) (forwards st) \<rparr>) t
         else updateNode n (\<lambda>st. st\<lparr> ancestorIndex := min (ancestorIndex st) (nodeIndex child) \<rparr>) t)"

text \<open>The nodes of the component rooted at \<open>n\<close>, in the order in which they come off the stack
  (its head is the node discovered last), and the rest of the stack.\<close>

definition component :: "cid \<Rightarrow> cid list \<Rightarrow> cid list \<times> cid list" where
  "component n stk = (takeWhile (\<lambda>m. m \<noteq> n) stk @ [n], drop 1 (dropWhile (\<lambda>m. m \<noteq> n) stk))"

definition finish :: "cid \<Rightarrow> cid list \<Rightarrow> 'r \<Rightarrow> 'r Traversal \<Rightarrow> 'r Traversal" where
  "finish root nodes r t =
     fold (\<lambda>n. updateNode n (\<lambda>st. st\<lparr> nodeResult := Some r, componentRoot := root \<rparr>)) nodes t"

definition isComponentRoot :: "cid \<Rightarrow> 'r Traversal \<Rightarrow> bool" where
  "isComponentRoot n t = (case visited t n of
       None \<Rightarrow> False
     | Some st \<Rightarrow> ancestorIndex st = nodeIndex st)"

definition forwardsOf :: "cid \<Rightarrow> 'r Traversal \<Rightarrow> 'r list" where
  "forwardsOf n t = (case visited t n of None \<Rightarrow> [] | Some st \<Rightarrow> map snd (forwards st))"

fun visitNode ::
  "nat \<Rightarrow> (cid \<Rightarrow> 's \<Rightarrow> (error + cid list) \<times> 's) \<Rightarrow>
   (cid list \<Rightarrow> 'r list \<Rightarrow> 's \<Rightarrow> (error + 'r) \<times> 's) \<Rightarrow> (cid list \<Rightarrow> 's \<Rightarrow> 's) \<Rightarrow>
   cid \<Rightarrow> 'r Traversal \<Rightarrow> 's \<Rightarrow> (error option \<times> 'r Traversal \<times> 's) option"
and visitChildren ::
  "nat \<Rightarrow> (cid \<Rightarrow> 's \<Rightarrow> (error + cid list) \<times> 's) \<Rightarrow>
   (cid list \<Rightarrow> 'r list \<Rightarrow> 's \<Rightarrow> (error + 'r) \<times> 's) \<Rightarrow> (cid list \<Rightarrow> 's \<Rightarrow> 's) \<Rightarrow>
   cid \<Rightarrow> cid list \<Rightarrow> 'r Traversal \<Rightarrow> 's \<Rightarrow> (error option \<times> 'r Traversal \<times> 's) option"
where
  "visitNode 0 visitPre visitPost onCancel n t s = None"
| "visitNode (Suc fuel) visitPre visitPost onCancel n t s =
     (case visitPre n s of
        (Inl e, s1) \<Rightarrow> Some (Some e, enter n t, s1)
      | (Inr children, s1) \<Rightarrow>
          (case visitChildren fuel visitPre visitPost onCancel n children (enter n t) s1 of
             None \<Rightarrow> None
           | Some (Some e, t2, s2) \<Rightarrow> Some (Some e, t2, s2)
           | Some (None, t2, s2) \<Rightarrow>
               if isComponentRoot n t2
               then (case component n (stack t2) of
                  (cycleNodes, rest) \<Rightarrow>
                    (case visitPost cycleNodes (forwardsOf n t2) s2 of
                       (Inl e, s3) \<Rightarrow> Some (Some e, t2\<lparr> stack := rest \<rparr>, onCancel rest s3)
                     | (Inr r, s3) \<Rightarrow> Some (None, finish n cycleNodes r (t2\<lparr> stack := rest \<rparr>), s3)))
               else Some (None, t2, s2)))"
| "visitChildren fuel visitPre visitPost onCancel n [] t s = Some (None, t, s)"
| "visitChildren fuel visitPre visitPost onCancel n (c # cs) t s =
     (case visited t c of
        Some child \<Rightarrow> visitChildren fuel visitPre visitPost onCancel n cs (absorb False n child t) s
      | None \<Rightarrow>
          (case visitNode fuel visitPre visitPost onCancel c t s of
             None \<Rightarrow> None
           | Some (Some e, t1, s1) \<Rightarrow> Some (Some e, t1, s1)
           | Some (None, t1, s1) \<Rightarrow>
               (case visited t1 c of
                  None \<Rightarrow> Some (Some AssertionError, t1, s1)
                | Some child \<Rightarrow>
                    visitChildren fuel visitPre visitPost onCancel n cs (absorb True n child t1) s1)))"

definition traverseDepthFirst ::
  "nat \<Rightarrow> cid \<Rightarrow> (cid \<Rightarrow> 's \<Rightarrow> (error + cid list) \<times> 's) \<Rightarrow>
   (cid list \<Rightarrow> 'r list \<Rightarrow> 's \<Rightarrow> (error + 'r) \<times> 's) \<Rightarrow> (cid list \<Rightarrow> 's \<Rightarrow> 's) \<Rightarrow>
   's \<Rightarrow> ((error + 'r) \<times> 's) option" where
  "traverseDepthFirst fuel root visitPre visitPost onCancel s =
     (case visitNode fuel visitPre visitPost onCancel root emptyTraversal s of
        None \<Rightarrow> None
      | Some (Some e, t, s1) \<Rightarrow> Some (Inl e, s1)
      | Some (None, t, s1) \<Rightarrow>
          (case visited t root of
             None \<Rightarrow> Some (Inl AssertionError, s1)
           | Some st \<Rightarrow> (case nodeResult st of
                None \<Rightarrow> Some (Inl AssertionError, s1)
              | Some r \<Rightarrow> Some (Inr r, s1))))"

definition noCancel :: "cid list \<Rightarrow> 's \<Rightarrow> 's" where
  "noCancel nodes s = s"


section \<open>Module instances and the hot facade\<close>

text \<open>
  Modelled from the spec: the operations of \<open>ReloadableModuleInstance\<close> (\<open>instance.ts\<close>) and
  the predicates of the hot facade (\<open>hot.ts\<close>), which are not among the sources.  Sections 3,
  4.2 and 4.3 of the specification describe them.  \<open>instantiate\<close> allocates the exports and
  keeps the payload of \<open>dispose\<close>; \<open>link\<close> binds the imports against the instances chosen by a
  selector and fails with the error of the host's name resolution; \<open>relink\<close> is \<open>link\<close> on an
  unchanged graph; \<open>unlink\<close> releases the bindings of an instance that was not evaluated and
  tells the caller to forget it; \<open>evaluate\<close> runs the body, leaves the instance evaluated, and
  keeps the error of a throwing body in \<open>evaluationError\<close>; \<open>clone\<close> is a new instance of the
  same declaration.
\<close>

definition instantiate :: "nat option \<Rightarrow> iid \<Rightarrow> world \<Rightarrow> world" where
  "instantiate data i w = setInstance i (\<lambda>inst. inst\<lparr> instantiated := True, disposeData := data \<rparr>) w"

definition selectedDeclarations :: "selector \<Rightarrow> world \<Rightarrow> cid \<Rightarrow> ModuleDeclaration option" where
  "selectedDeclarations sel w c =
     map_option (\<lambda>i. moduleDeclaration (instances w i)) (sel (controllers w c))"

definition link :: "selector \<Rightarrow> iid \<Rightarrow> world \<Rightarrow> error + world" where
  "link sel i w =
     (case resolution w (selectedDeclarations sel w) (moduleDeclaration (instances w i)) of
        Some e \<Rightarrow> Inl e
      | None \<Rightarrow> Inr (setInstance i
          (\<lambda>inst. if status inst = New then inst\<lparr> status := Linked \<rparr> else inst) w))"

definition relink :: "iid \<Rightarrow> world \<Rightarrow> error + world" where
  "relink i w = link selectCurrent i w"

definition unlink :: "iid \<Rightarrow> world \<Rightarrow> bool \<times> world" where
  "unlink i w =
     (if status (instances w i) = Evaluated then (False, w)
      else (True, setInstance i (\<lambda>inst. inst\<lparr> status := New \<rparr>) w))"

definition clone :: "iid \<Rightarrow> world \<Rightarrow> iid \<times> world" where
  "clone i w = allocate (newInstance (moduleDeclaration (instances w i))) w"

definition evaluate :: "iid \<Rightarrow> world \<Rightarrow> error option \<times> world" where
  "evaluate i w =
     (let b = body (moduleDeclaration (instances w i));
          w1 = w\<lparr> trace := trace w @ [Evaluate i] \<rparr>
      in (throws b, setInstance i (\<lambda>inst. inst\<lparr> status := Evaluated, evaluationError := throws b,
            dynamicImports := importsDynamically b, hot := registers b \<rparr>) w1))"

definition iterateDependencies :: "iid \<Rightarrow> world \<Rightarrow> cid list" where
  "iterateDependencies i w =
     map controller (loadedModules (moduleDeclaration (instances w i))) @ dynamicImports (instances w i)"

definition isAccepted :: "iid \<Rightarrow> cid list \<Rightarrow> world \<Rightarrow> bool" where
  "isAccepted i changed w =
     list_all (\<lambda>d. acceptsSelf (hot (instances w i)) \<or> d \<in> fst ` set (accepts (hot (instances w i))))
       changed"

definition isAcceptedSelf :: "iid \<Rightarrow> world \<Rightarrow> bool" where
  "isAcceptedSelf i w = acceptsSelf (hot (instances w i))"

definition isDeclined :: "iid \<Rightarrow> world \<Rightarrow> bool" where
  "isDeclined i w = declines (hot (instances w i))"

definition isInvalidated :: "iid \<Rightarrow> world \<Rightarrow> bool" where
  "isInvalidated i w = invalidates (hot (instances w i))"

text \<open>\<open>tryAccept\<close> runs the accept callbacks registered for the changed dependencies; an update
  that no registered callback takes, or whose callback fails, is not accepted.\<close>

definition tryAccept :: "iid \<Rightarrow> cid list \<Rightarrow> world \<Rightarrow> bool \<times> world" where
  "tryAccept i changed w =
     (list_all (\<lambda>d. \<exists>p \<in> set (accepts (hot (instances w i))). fst p = d \<and> snd p) changed,
      w\<lparr> trace := trace w @ [TryAccept i changed] \<rparr>)"

definition tryAcceptSelf :: "iid \<Rightarrow> iid \<Rightarrow> world \<Rightarrow> bool \<times> world" where
  "tryAcceptSelf i successor w =
     (acceptsSelf (hot (instances w i)) \<and> acceptSelfOk (hot (instances w i)),
      w\<lparr> trace := trace w @ [TryAcceptSelf i successor] \<rparr>)"

definition dispose :: "iid \<Rightarrow> world \<Rightarrow> (error + nat option) \<times> world" where
  "dispose i w = (onDispose (hot (instances w i)), w\<lparr> trace := trace w @ [Dispose i] \<rparr>)"

definition prune :: "iid \<Rightarrow> world \<Rightarrow> error option \<times> world" where
  "prune i w = (onPrune (hot (instances w i)), w\<lparr> trace := trace w @ [Prune i] \<rparr>)"

section \<open>traverse\<close>

text \<open>
  The generator \<open>traverse\<close> yields every controller that is reached from \<open>this\<close> over at least
  one edge of the current view, each once; \<open>this\<close> itself is marked and yielded only when an
  edge leads back to it.  The generator is consumed lazily, so the consumer's step for a node
  (\<open>onYield\<close>) runs before the children of that node are read.  The marks (\<open>visitIndex\<close>) are
  the list of the nodes yielded so far.
\<close>

fun traverseNode ::
  "nat \<Rightarrow> (cid \<Rightarrow> world \<Rightarrow> error + world) \<Rightarrow> cid \<Rightarrow> cid list \<Rightarrow> world \<Rightarrow>
   (error option \<times> cid list \<times> world) option"
and traverseEdges ::
  "nat \<Rightarrow> (cid \<Rightarrow> world \<Rightarrow> error + world) \<Rightarrow> cid list \<Rightarrow> cid list \<Rightarrow> world \<Rightarrow>
   (error option \<times> cid list \<times> world) option"
where
  "traverseNode 0 onYield node seen w = None"
| "traverseNode (Suc fuel) onYield node seen w =
     (case iterateWithDynamics selectCurrent selectCurrent node w of
        Inl e \<Rightarrow> Some (Some e, seen, w)
      | Inr children \<Rightarrow> traverseEdges fuel onYield children seen w)"
| "traverseEdges fuel onYield [] seen w = Some (None, seen, w)"
| "traverseEdges fuel onYield (child # rest) seen w =
     (if child \<in> set seen then traverseEdges fuel onYield rest seen w
      else (case onYield child w of
          Inl e \<Rightarrow> Some (Some e, seen @ [child], w)
        | Inr w1 \<Rightarrow>
            (case traverseNode fuel onYield child (seen @ [child]) w1 of
               None \<Rightarrow> None
             | Some (Some e, seen1, w2) \<Rightarrow> Some (Some e, seen1, w2)
             | Some (None, seen1, w2) \<Rightarrow> traverseEdges fuel onYield rest seen1 w2)))"

definition traverse ::
  "nat \<Rightarrow> (cid \<Rightarrow> world \<Rightarrow> error + world) \<Rightarrow> cid \<Rightarrow> world \<Rightarrow> (error option \<times> cid list \<times> world) option" where
  "traverse fuel onYield this w = traverseNode fuel onYield this [] w"


section \<open>iterateWithRollback\<close>

text \<open>
  Modelled from the spec: \<open>iterateWithRollback\<close> of \<open>utility.ts\<close>, which is not among the
  sources.  It hands out the nodes one by one; when the loop over it is left by a throw, the
  rollback gets the nodes handed out so far, the one whose step threw included, before the
  error propagates.  An error of the rollback itself replaces the error of the step.
\<close>

fun iterateWithRollback ::
  "(cid \<Rightarrow> 's \<Rightarrow> (error option \<times> 's)) \<Rightarrow> (cid list \<Rightarrow> 's \<Rightarrow> (error option \<times> 's)) \<Rightarrow>
   cid list \<Rightarrow> cid list \<Rightarrow> 's \<Rightarrow> error option \<times> 's" where
  "iterateWithRollback step rollback done [] s = (None, s)"
| "iterateWithRollback step rollback done (node # rest) s =
     (case step node s of
        (Some e, s1) \<Rightarrow>
          (case rollback (done @ [node]) s1 of
             (Some e', s2) \<Rightarrow> (Some e', s2)
           | (None, s2) \<Rightarrow> (Some e, s2))
      | (None, s1) \<Rightarrow> iterateWithRollback step rollback (done @ [node]) rest s1)"

section \<open>dispatch\<close>

definition selectStaging :: selector where
  "selectStaging c = staging c"

fun forgetUnlinked :: "cid list \<Rightarrow> world \<Rightarrow> error option \<times> world" where
  "forgetUnlinked [] w = (None, w)"
| "forgetUnlinked (node # rest) w =
     (case select selectCurrent node w of
        Inl e \<Rightarrow> (Some e, w)
      | Inr i \<Rightarrow>
          (case unlink i w of
             (True, w1) \<Rightarrow> forgetUnlinked rest (setController node (\<lambda>c. c\<lparr> current := None \<rparr>) w1)
           | (False, w1) \<Rightarrow> forgetUnlinked rest w1))"

definition dispatchInstantiate :: "cid \<Rightarrow> world \<Rightarrow> (error + cid list) \<times> world" where
  "dispatchInstantiate node w =
     (if current (controllers w node) = None
      then (case select selectStaging node w of
          Inl e \<Rightarrow> (Inl e, w)
        | Inr i \<Rightarrow>
            (let w1 = instantiate None i (setController node (\<lambda>c. c\<lparr> current := Some i \<rparr>) w)
             in (iterate selectCurrent node w1, w1)))
      else (iterate selectCurrent node w, w))"

definition dispatchLinkStep :: "cid \<Rightarrow> world \<Rightarrow> error option \<times> world" where
  "dispatchLinkStep node w =
     (case select selectCurrent node w of
        Inl e \<Rightarrow> (Some e, w)
      | Inr i \<Rightarrow> (case link selectCurrent i w of Inl e \<Rightarrow> (Some e, w) | Inr w1 \<Rightarrow> (None, w1)))"

definition dispatchLink :: "cid list \<Rightarrow> unit list \<Rightarrow> world \<Rightarrow> (error + unit) \<times> world" where
  "dispatchLink nodes forwardResults w =
     (case iterateWithRollback dispatchLinkStep forgetUnlinked [] nodes w of
        (Some e, w1) \<Rightarrow> (Inl e, w1)
      | (None, w1) \<Rightarrow> (Inr (), w1))"

definition dispatchCancel :: "cid list \<Rightarrow> world \<Rightarrow> world" where
  "dispatchCancel pendingNodes w = snd (forgetUnlinked pendingNodes w)"

fun dispatchEvaluate :: "cid list \<Rightarrow> unit list \<Rightarrow> world \<Rightarrow> (error + unit) \<times> world" where
  "dispatchEvaluate [] forwardResults w = (Inr (), w)"
| "dispatchEvaluate (node # rest) forwardResults w =
     (case select selectCurrent node w of
        Inl e \<Rightarrow> (Inl e, w)
      | Inr i \<Rightarrow>
          (let w1 = (if Some i = staging (controllers w node)
                     then setController node (\<lambda>c. c\<lparr> staging := None \<rparr>) w else w)
           in case evaluate i w1 of
                (Some e, w2) \<Rightarrow> (Inl e, w2)
              | (None, w2) \<Rightarrow> dispatchEvaluate rest forwardResults w2))"

text \<open>\<open>dispatch\<close>: \<open>Inl\<close> is the error the returned promise is rejected with.\<close>

definition dispatch :: "nat \<Rightarrow> cid \<Rightarrow> world \<Rightarrow> ((error + unit) \<times> world) option" where
  "dispatch fuel this w =
     (if current (controllers w this) = None
      then (case traverseDepthFirst fuel this dispatchInstantiate dispatchLink dispatchCancel w of
          None \<Rightarrow> None
        | Some (Inl e, w1) \<Rightarrow> Some (Inl e, w1)
        | Some (Inr _, w1) \<Rightarrow>
            traverseDepthFirst fuel this (\<lambda>node w. (iterate selectCurrent node w, w))
              dispatchEvaluate noCancel w1)
      else Some (Inr (), w))"

section \<open>requestUpdate: results\<close>

record UpdateStats =
  loads :: nat
  reevaluations :: nat

datatype 'a NextLink = NextUndefined | NextNull | NextChains 'a

datatype InvalidationChain =
  InvalidationChain (modules: "cid list") (nextChains: "InvalidationChain list NextLink")

datatype UpdateResult =
    Undefined
  | UpdateSuccess UpdateStats
  | UpdateUnacceptedEvaluation UpdateStats
  | UpdateDeclined "cid list"
  | UpdateUnaccepted "InvalidationChain list"
  | UpdateEvaluationError error UpdateStats
  | UpdateLinkError error
  | UpdateFatalError error

text \<open>How a call ends: the promise is fulfilled with a result or rejected with an error.\<close>

datatype outcome = Returned UpdateResult | Thrown error

section \<open>requestUpdate: phase 1, the dry run\<close>

datatype DryRunResult = DryRunResult
  (forwardResults: "DryRunResult list")
  (declined: "cid list")
  (invalidated: "cid list")
  (hasDecline: bool)
  (hasNewCode: bool)
  (needsDispatch: bool)

definition selectPending :: selector where
  "selectPending c = pending c"

definition selectPreviousOrPending :: selector where
  "selectPreviousOrPending c = (case previous c of Some i \<Rightarrow> Some i | None \<Rightarrow> pending c)"

text \<open>The state of the dry run: the world and the array \<open>nextControllers\<close>.\<close>

definition dryRunPre :: "cid \<Rightarrow> world \<times> cid list \<Rightarrow> (error + cid list) \<times> world \<times> cid list" where
  "dryRunPre node s =
     (case s of (w, nextControllers) \<Rightarrow>
        (case (case staging (controllers w node) of
                 Some i \<Rightarrow> Inr i
               | None \<Rightarrow> select selectCurrent node w) of
           Inl e \<Rightarrow> (Inl e, s)
         | Inr i \<Rightarrow>
             (let w1 = setController node (\<lambda>c. c\<lparr> pending := Some i \<rparr>) w;
                  w2 = setController node (\<lambda>c. c\<lparr> previous := current c \<rparr>) w1
              in (iterateWithDynamics selectPending selectPreviousOrPending node w2,
                  (w2, nextControllers)))))"

text \<open>The callback of the filter over the nodes of a component: it pushes the node, updates
  the two flags and says whether the node is invalidated.\<close>

definition dryRunNode ::
  "cid list \<Rightarrow> world \<Rightarrow> cid \<Rightarrow> bool \<times> bool \<times> cid list \<Rightarrow> bool \<times> bool \<times> bool \<times> cid list" where
  "dryRunNode forwardUpdates w node acc =
     (case acc of (needsDispatch', hasNewCode', nextControllers) \<Rightarrow>
        (let c = controllers w node;
             nodeHasNewCode = (previous c \<noteq> pending c);
             hasNewCode'' = (hasNewCode' \<or> nodeHasNewCode)
         in if nodeHasNewCode \<or>
               (case current c of
                  None \<Rightarrow> True
                | Some cur \<Rightarrow> isInvalidated cur w \<or> \<not> isAccepted cur forwardUpdates w)
            then ((case current c of None \<Rightarrow> True | Some cur \<Rightarrow> \<not> isAcceptedSelf cur w),
                  True, hasNewCode'', nextControllers @ [node])
            else (False, needsDispatch', hasNewCode'', nextControllers @ [node])))"

fun dryRunFilter ::
  "cid list \<Rightarrow> world \<Rightarrow> cid list \<Rightarrow> bool \<times> bool \<times> cid list \<Rightarrow> cid list \<times> bool \<times> bool \<times> cid list" where
  "dryRunFilter forwardUpdates w [] acc = ([], acc)"
| "dryRunFilter forwardUpdates w (node # rest) acc =
     (case dryRunNode forwardUpdates w node acc of
        (keep, acc1) \<Rightarrow>
          (case dryRunFilter forwardUpdates w rest acc1 of
             (kept, acc2) \<Rightarrow> ((if keep then node # kept else kept), acc2)))"

definition dryRunPost ::
  "cid list \<Rightarrow> DryRunResult list \<Rightarrow> world \<times> cid list \<Rightarrow> (error + DryRunResult) \<times> world \<times> cid list" where
  "dryRunPost cycleNodes forwardResults' s =
     (case s of (w, nextControllers) \<Rightarrow>
        (let forwardUpdates = concat (map invalidated forwardResults')
         in case dryRunFilter forwardUpdates w cycleNodes (False, False, nextControllers) of
              (invalidated', needsDispatch', hasNewCode', nextControllers') \<Rightarrow>
                (let declined' = filter (\<lambda>node. case current (controllers w node) of
                         None \<Rightarrow> False | Some cur \<Rightarrow> isDeclined cur w) invalidated';
                     hasDecline' = (declined' \<noteq> [] \<or> list_ex hasDecline forwardResults');
                     needsDispatch'' = (needsDispatch' \<or> list_ex needsDispatch forwardResults');
                     hasNewCode'' = (hasNewCode' \<or> list_ex hasNewCode forwardResults')
                 in (Inr (DryRunResult forwardResults' declined' invalidated' hasDecline'
                       hasNewCode'' needsDispatch''),
                     (w, nextControllers')))))"

definition clearUpdate :: "cid list \<Rightarrow> world \<Rightarrow> world" where
  "clearUpdate nodes w =
     fold (\<lambda>node w. setController node (\<lambda>c. c\<lparr> pending := None, previous := None \<rparr>) w) nodes w"

definition dryRunCancel :: "cid list \<Rightarrow> world \<times> cid list \<Rightarrow> world \<times> cid list" where
  "dryRunCancel pendingNodes s = (case s of (w, nextControllers) \<Rightarrow>
     (clearUpdate pendingNodes w, nextControllers))"

definition dryRun :: "nat \<Rightarrow> cid \<Rightarrow> world \<Rightarrow> ((error + DryRunResult) \<times> world \<times> cid list) option" where
  "dryRun fuel this w = traverseDepthFirst fuel this dryRunPre dryRunPost dryRunCancel (w, [])"

text \<open>The rollback routine which undoes the dry run.\<close>

definition rollback :: "cid list \<Rightarrow> world \<Rightarrow> world" where
  "rollback nextControllers w = clearUpdate nextControllers w"

fun flattenDeclined :: "DryRunResult \<Rightarrow> cid list" where
  "flattenDeclined (DryRunResult frs d i b1 b2 b3) = d @ concat (map flattenDeclined frs)"


section \<open>requestUpdate: the invalidation chain of an unaccepted update\<close>

fun markVisited :: "cid list \<Rightarrow> cid list \<Rightarrow> bool \<times> cid list" where
  "markVisited [] marked = (False, marked)"
| "markVisited (node # rest) marked =
     (if node \<in> set marked then (True, marked) else markVisited rest (node # marked))"

fun importedModulesOf :: "cid list \<Rightarrow> world \<Rightarrow> error + cid list" where
  "importedModulesOf [] w = Inr []"
| "importedModulesOf (c # rest) w =
     (case select selectCurrent c w of
        Inl e \<Rightarrow> Inl e
      | Inr cur \<Rightarrow>
          (case importedModulesOf rest w of
             Inl e \<Rightarrow> Inl e
           | Inr others \<Rightarrow> Inr (iterateDependencies cur w @ others)))"

definition chainNext :: "InvalidationChain list \<Rightarrow> InvalidationChain list NextLink" where
  "chainNext importedInvalidations =
     (if importedInvalidations = [] then NextUndefined
      else if list_all (\<lambda>r. nextChains r = NextNull) importedInvalidations then NextNull
      else NextChains importedInvalidations)"

fun chainTraverse :: "world \<Rightarrow> DryRunResult \<Rightarrow> cid list \<Rightarrow> (error + InvalidationChain) \<times> cid list"
and chainForward ::
  "world \<Rightarrow> cid list \<Rightarrow> DryRunResult list \<Rightarrow> cid list \<Rightarrow> (error + InvalidationChain list) \<times> cid list"
where
  "chainTraverse w (DryRunResult frs d ivd b1 b2 b3) marked =
     (case markVisited ivd marked of
        (True, marked1) \<Rightarrow> (Inr (InvalidationChain ivd NextNull), marked1)
      | (False, marked1) \<Rightarrow>
          (case importedModulesOf ivd w of
             Inl e \<Rightarrow> (Inl e, marked1)
           | Inr importedModules \<Rightarrow>
               (case chainForward w importedModules frs marked1 of
                  (Inl e, marked2) \<Rightarrow> (Inl e, marked2)
                | (Inr importedInvalidations, marked2) \<Rightarrow>
                    (Inr (InvalidationChain ivd (chainNext importedInvalidations)), marked2))))"
| "chainForward w importedModules [] marked = (Inr [], marked)"
| "chainForward w importedModules (r # rest) marked =
     (if list_ex (\<lambda>c. c \<in> set importedModules) (invalidated r)
      then (case chainTraverse w r marked of
          (Inl e, marked1) \<Rightarrow> (Inl e, marked1)
        | (Inr chain, marked1) \<Rightarrow>
            (case chainForward w importedModules rest marked1 of
               (Inl e, marked2) \<Rightarrow> (Inl e, marked2)
             | (Inr others, marked2) \<Rightarrow> (Inr (chain # others), marked2)))
      else chainForward w importedModules rest marked)"

section \<open>requestUpdate: phase 2, the link test\<close>

definition selectTemporary :: selector where
  "selectTemporary c = temporary c"

definition selectTemporaryOrPending :: selector where
  "selectTemporaryOrPending c = (case temporary c of Some i \<Rightarrow> Some i | None \<Rightarrow> pending c)"

text \<open>The state of the link test: the world and the array \<open>instantiated\<close>.\<close>

definition linkTestPre :: "cid \<Rightarrow> world \<times> cid list \<Rightarrow> (error + cid list) \<times> world \<times> cid list" where
  "linkTestPre node s = (case s of (w, instantiated') \<Rightarrow>
     (iterateWithDynamics selectPending selectPreviousOrPending node w, s))"

fun anyPendingChanged :: "cid list \<Rightarrow> world \<Rightarrow> error + bool" where
  "anyPendingChanged [] w = Inr False"
| "anyPendingChanged (node # rest) w =
     (case select selectPending node w of
        Inl e \<Rightarrow> Inl e
      | Inr p \<Rightarrow> if Some p \<noteq> current (controllers w node) then Inr True
                 else anyPendingChanged rest w)"

fun instantiateTemporaries :: "cid list \<Rightarrow> world \<times> cid list \<Rightarrow> error option \<times> world \<times> cid list" where
  "instantiateTemporaries [] s = (None, s)"
| "instantiateTemporaries (node # rest) s = (case s of (w, instantiated') \<Rightarrow>
     (case select selectPending node w of
        Inl e \<Rightarrow> (Some e, s)
      | Inr p \<Rightarrow>
          (case clone p w of
             (t, w1) \<Rightarrow>
               instantiateTemporaries rest
                 (instantiate None t (setController node (\<lambda>c. c\<lparr> temporary := Some t \<rparr>) w1),
                  instantiated' @ [node]))))"

fun linkTemporaries :: "cid list \<Rightarrow> world \<Rightarrow> error option \<times> world" where
  "linkTemporaries [] w = (None, w)"
| "linkTemporaries (node # rest) w =
     (case select selectTemporary node w of
        Inl e \<Rightarrow> (Some e, w)
      | Inr t \<Rightarrow>
          (case link selectTemporaryOrPending t w of
             Inl e \<Rightarrow> (Some e, w)
           | Inr w1 \<Rightarrow> linkTemporaries rest w1))"

definition linkTestPost ::
  "cid list \<Rightarrow> bool list \<Rightarrow> world \<times> cid list \<Rightarrow> (error + bool) \<times> world \<times> cid list" where
  "linkTestPost cycleNodes forwardResults' s = (case s of (w, instantiated') \<Rightarrow>
     (case (if list_ex (\<lambda>b. b) forwardResults' then Inr True else anyPendingChanged cycleNodes w) of
        Inl e \<Rightarrow> (Inl e, s)
      | Inr hasUpdate \<Rightarrow>
          if hasUpdate
          then (case instantiateTemporaries cycleNodes s of
              (Some e, s1) \<Rightarrow> (Inl e, s1)
            | (None, (w1, instantiated1)) \<Rightarrow>
                (case linkTemporaries cycleNodes w1 of
                   (Some e, w2) \<Rightarrow> (Inl e, (w2, instantiated1))
                 | (None, w2) \<Rightarrow> (Inr True, (w2, instantiated1))))
          else (Inr False, s)))"

text \<open>The \<open>finally\<close> block of the link test.\<close>

fun discardTemporaries :: "cid list \<Rightarrow> world \<Rightarrow> error option \<times> world" where
  "discardTemporaries [] w = (None, w)"
| "discardTemporaries (node # rest) w =
     (case select selectTemporary node w of
        Inl e \<Rightarrow> (Some e, w)
      | Inr t \<Rightarrow>
          discardTemporaries rest
            (setController node (\<lambda>c. c\<lparr> temporary := None \<rparr>) (snd (unlink t w))))"

definition linkTestTraversal ::
  "nat \<Rightarrow> cid \<Rightarrow> world \<Rightarrow> ((error + bool) \<times> world \<times> cid list) option" where
  "linkTestTraversal fuel this w =
     traverseDepthFirst fuel this linkTestPre linkTestPost noCancel (w, [])"

text \<open>The whole \<open>try\<close>/\<open>catch\<close>/\<open>finally\<close> statement: \<open>Some\<close> outcome when \<open>requestUpdate\<close> ends
  here, \<open>None\<close> when it goes on.\<close>

definition linkTest :: "nat \<Rightarrow> cid \<Rightarrow> cid list \<Rightarrow> world \<Rightarrow> (outcome option \<times> world) option" where
  "linkTest fuel this nextControllers w =
     (case linkTestTraversal fuel this w of
        None \<Rightarrow> None
      | Some (Inl e, w1, instantiated') \<Rightarrow>
          (case discardTemporaries instantiated' (rollback nextControllers w1) of
             (Some e', w2) \<Rightarrow> Some (Some (Thrown e'), w2)
           | (None, w2) \<Rightarrow> Some (Some (Returned (UpdateLinkError e)), w2))
      | Some (Inr _, w1, instantiated') \<Rightarrow>
          (case discardTemporaries instantiated' w1 of
             (Some e', w2) \<Rightarrow> Some (Some (Thrown e'), w2)
           | (None, w2) \<Rightarrow> Some (None, w2)))"


section \<open>requestUpdate: phase 3, link and evaluate\<close>

datatype RunResult = RunResult
  (runForwardResults: "RunResult list")
  (runInvalidated: "cid list")
  (treeDidUpdate: bool)

text \<open>The selector that the third traversal passes for the dynamic imports: it is written
  \<open>controller => controller.previous ?? node.pending\<close>, with the \<open>pending\<close> slot of the node
  that is being visited.\<close>

definition selectPreviousOrPendingOf :: "world \<Rightarrow> cid \<Rightarrow> selector" where
  "selectPreviousOrPendingOf w node c =
     (case previous c of Some i \<Rightarrow> Some i | None \<Rightarrow> pending (controllers w node))"

text \<open>The state of the third traversal: the world, the counters \<open>loads\<close> and \<open>reevaluations\<close>,
  and whether \<open>dispatchLinkErrorType\<close> was set to \<open>fatalError\<close>.\<close>

type_synonym commitState = "world \<times> UpdateStats \<times> bool"

definition commitPre :: "cid \<Rightarrow> commitState \<Rightarrow> (error + cid list) \<times> commitState" where
  "commitPre node s = (case s of (w, stats, fatal) \<Rightarrow>
     (iterateWithDynamics selectPending (selectPreviousOrPendingOf w node) node w, s))"

fun hasStagingOrInvalidated :: "cid list \<Rightarrow> world \<Rightarrow> error + bool" where
  "hasStagingOrInvalidated [] w = Inr False"
| "hasStagingOrInvalidated (node # rest) w =
     (if staging (controllers w node) \<noteq> None then Inr True
      else (case select selectCurrent node w of
          Inl e \<Rightarrow> Inl e
        | Inr cur \<Rightarrow> if isInvalidated cur w then Inr True else hasStagingOrInvalidated rest w))"

fun relinkAndAccept :: "cid list \<Rightarrow> cid list \<Rightarrow> world \<Rightarrow> (error + bool) \<times> world" where
  "relinkAndAccept forwardUpdates [] w = (Inr False, w)"
| "relinkAndAccept forwardUpdates (node # rest) w =
     (case select selectCurrent node w of
        Inl e \<Rightarrow> (Inl e, w)
      | Inr cur \<Rightarrow>
          (case relink cur w of
             Inl e \<Rightarrow> (Inl e, w)
           | Inr w1 \<Rightarrow>
               (case select selectCurrent node w1 of
                  Inl e \<Rightarrow> (Inl e, w1)
                | Inr cur' \<Rightarrow>
                    (case tryAccept cur' forwardUpdates w1 of
                       (False, w2) \<Rightarrow> (Inr True, w2)
                     | (True, w2) \<Rightarrow> relinkAndAccept forwardUpdates rest w2))))"

fun keepCurrent :: "cid list \<Rightarrow> world \<Rightarrow> error option \<times> world" where
  "keepCurrent [] w = (None, w)"
| "keepCurrent (node # rest) w =
     (if current (controllers w node) \<noteq> pending (controllers w node) then (Some AssertionError, w)
      else keepCurrent rest (setController node (\<lambda>c. c\<lparr> pending := None \<rparr>) w))"

text \<open>1) Instantiate: dispose of the current instance, put the pending one (or a clone of
  the current one) in its place, and instantiate it with the payload.\<close>

fun replaceInstances :: "cid list \<Rightarrow> world \<times> bool \<Rightarrow> error option \<times> world \<times> bool" where
  "replaceInstances [] s = (None, s)"
| "replaceInstances (node # rest) s = (case s of (w, fatal) \<Rightarrow>
     (case select selectPending node w of
        Inl e \<Rightarrow> (Some e, s)
      | Inr p \<Rightarrow>
          (case (case current (controllers w node) of
                   None \<Rightarrow> (Inr None, w)
                 | Some cur \<Rightarrow> dispose cur w) of
             (Inl e, w1) \<Rightarrow> (Some e, (w1, True))
           | (Inr data, w1) \<Rightarrow>
               (case (if current (controllers w1 node) = Some p then clone p w1 else (p, w1)) of
                  (i, w2) \<Rightarrow>
                    replaceInstances rest
                      (instantiate data i (setController node (\<lambda>c. c\<lparr> current := Some i \<rparr>) w2),
                       fatal)))))"

text \<open>2) Link.\<close>

fun linkCurrent :: "cid list \<Rightarrow> world \<Rightarrow> error option \<times> world" where
  "linkCurrent [] w = (None, w)"
| "linkCurrent (node # rest) w =
     (case select selectCurrent node w of
        Inl e \<Rightarrow> (Some e, w)
      | Inr cur \<Rightarrow>
          (case link selectCurrent cur w of
             Inl e \<Rightarrow> (Some e, w)
           | Inr w1 \<Rightarrow> linkCurrent rest w1))"

text \<open>3) Evaluate: the body of the loop over \<open>withRollback\<close>, and the rollback.\<close>

definition evaluateStep :: "cid \<Rightarrow> world \<times> UpdateStats \<Rightarrow> error option \<times> world \<times> UpdateStats" where
  "evaluateStep node s = (case s of (w, stats) \<Rightarrow>
     (case select selectCurrent node w of
        Inl e \<Rightarrow> (Some e, s)
      | Inr cur \<Rightarrow>
          (let stats1 =
                 (if (case previous (controllers w node) of
                        None \<Rightarrow> False
                      | Some prev \<Rightarrow> declId (moduleDeclaration (instances w cur)) =
                          declId (moduleDeclaration (instances w prev)))
                  then stats\<lparr> reevaluations := Suc (reevaluations stats) \<rparr>
                  else stats\<lparr> loads := Suc (loads stats) \<rparr>)
           in case evaluate cur w of
                (Some e, w1) \<Rightarrow> (Some e, (w1, stats1))
              | (None, w1) \<Rightarrow>
                  (let w2 = setController node (\<lambda>c. c\<lparr> pending := None \<rparr>) w1;
                       w3 = (if Some cur = staging (controllers w2 node)
                             then setController node (\<lambda>c. c\<lparr> staging := None \<rparr>) w2 else w2)
                   in (None, (w3, stats1))))))"

fun evaluateRollback :: "cid list \<Rightarrow> world \<times> UpdateStats \<Rightarrow> error option \<times> world \<times> UpdateStats" where
  "evaluateRollback [] s = (None, s)"
| "evaluateRollback (node # rest) s = (case s of (w, stats) \<Rightarrow>
     (case select selectCurrent node w of
        Inl e \<Rightarrow> (Some e, s)
      | Inr cur \<Rightarrow>
          if status (instances w cur) \<noteq> Evaluated then (Some AssertionError, s)
          else if evaluationError (instances w cur) \<noteq> None
          then evaluateRollback rest
                 (setController node (\<lambda>c. c\<lparr> current := previous c \<rparr>) w, stats)
          else evaluateRollback rest s))"

text \<open>Try self-accept.\<close>

fun trySelfAccepts :: "cid list \<Rightarrow> world \<Rightarrow> (error + cid list) \<times> world" where
  "trySelfAccepts [] w = (Inr [], w)"
| "trySelfAccepts (node # rest) w =
     (case previous (controllers w node) of
        None \<Rightarrow> trySelfAccepts rest w
      | Some prev \<Rightarrow>
          (case select selectCurrent node w of
             Inl e \<Rightarrow> (Inl e, w)
           | Inr cur \<Rightarrow>
               (case tryAcceptSelf prev cur w of
                  (ok, w1) \<Rightarrow>
                    (case trySelfAccepts rest w1 of
                       (Inl e, w2) \<Rightarrow> (Inl e, w2)
                     | (Inr invalidated', w2) \<Rightarrow>
                         (Inr (if ok then invalidated' else node # invalidated'), w2)))))"

definition replaceComponent ::
  "cid list \<Rightarrow> RunResult list \<Rightarrow> commitState \<Rightarrow> (error + RunResult) \<times> commitState" where
  "replaceComponent cycleNodes forwardResults' s = (case s of (w, stats, fatal) \<Rightarrow>
     (case replaceInstances cycleNodes (w, fatal) of
        (Some e, (w1, fatal1)) \<Rightarrow> (Inl e, (w1, stats, fatal1))
      | (None, (w1, fatal1)) \<Rightarrow>
          (case linkCurrent cycleNodes w1 of
             (Some e, w2) \<Rightarrow> (Inl e, (w2, stats, fatal1))
           | (None, w2) \<Rightarrow>
               (case iterateWithRollback evaluateStep evaluateRollback [] cycleNodes (w2, stats) of
                  (Some e, (w3, stats3)) \<Rightarrow> (Inl e, (w3, stats3, fatal1))
                | (None, (w3, stats3)) \<Rightarrow>
                    (case trySelfAccepts cycleNodes w3 of
                       (Inl e, w4) \<Rightarrow> (Inl e, (w4, stats3, fatal1))
                     | (Inr invalidated', w4) \<Rightarrow>
                         (Inr (RunResult forwardResults' invalidated' True),
                          (w4, stats3, fatal1)))))))"

definition commitPost ::
  "cid list \<Rightarrow> RunResult list \<Rightarrow> commitState \<Rightarrow> (error + RunResult) \<times> commitState" where
  "commitPost cycleNodes forwardResults' s = (case s of (w, stats, fatal) \<Rightarrow>
     (case hasStagingOrInvalidated cycleNodes w of
        Inl e \<Rightarrow> (Inl e, s)
      | Inr needsUpdate \<Rightarrow>
          (let treeDidUpdate' = list_ex treeDidUpdate forwardResults'
           in case (if treeDidUpdate' \<and> \<not> needsUpdate
                    then relinkAndAccept (concat (map runInvalidated forwardResults')) cycleNodes w
                    else (Inr needsUpdate, w)) of
                (Inl e, w1) \<Rightarrow> (Inl e, (w1, stats, fatal))
              | (Inr needsUpdate', w1) \<Rightarrow>
                  if \<not> needsUpdate'
                  then (case keepCurrent cycleNodes w1 of
                      (Some e, w2) \<Rightarrow> (Inl e, (w2, stats, fatal))
                    | (None, w2) \<Rightarrow>
                        (Inr (RunResult forwardResults' [] treeDidUpdate'), (w2, stats, fatal)))
                  else replaceComponent cycleNodes forwardResults' (w1, stats, fatal))))"

text \<open>The \<open>catch\<close> block: throw away the pending instances and re-link.\<close>

definition relinkPre :: "cid \<Rightarrow> world \<Rightarrow> (error + cid list) \<times> world" where
  "relinkPre node w =
     (let w1 = (case pending (controllers w node) of
                  None \<Rightarrow> w
                | Some p \<Rightarrow> setController node (\<lambda>c. c\<lparr> pending := None \<rparr>) (snd (unlink p w)))
      in (iterateWithDynamics selectCurrent selectCurrent node w1, w1))"

fun relinkPost :: "cid list \<Rightarrow> unit list \<Rightarrow> world \<Rightarrow> (error + unit) \<times> world" where
  "relinkPost [] forwardResults' w = (Inr (), w)"
| "relinkPost (node # rest) forwardResults' w =
     (case select selectCurrent node w of
        Inl e \<Rightarrow> (Inl e, w)
      | Inr cur \<Rightarrow>
          (case relink cur w of
             Inl e \<Rightarrow> (Inl e, w)
           | Inr w1 \<Rightarrow> relinkPost rest forwardResults' w1))"

text \<open>The \<open>finally\<close> block: clear \<open>previous\<close> on what \<open>traverse\<close> yields, then prune the
  controllers that were yielded before the update and are not yielded now.\<close>

definition clearPrevious :: "cid \<Rightarrow> world \<Rightarrow> error + world" where
  "clearPrevious node w =
     (if pending (controllers w node) \<noteq> None then Inl AssertionError
      else Inr (setController node (\<lambda>c. c\<lparr> previous := None \<rparr>) w))"

fun pruneOrphans :: "cid \<Rightarrow> cid list \<Rightarrow> cid list \<Rightarrow> world \<Rightarrow> outcome option \<times> world" where
  "pruneOrphans this currentControllers [] w = (None, w)"
| "pruneOrphans this currentControllers (c # rest) w =
     (if c \<in> set currentControllers then pruneOrphans this currentControllers rest w
      else (case select selectCurrent c w of
          Inl e \<Rightarrow> (Some (Thrown e), w)
        | Inr cur \<Rightarrow>
            (case prune cur w of
               (Some e, w1) \<Rightarrow>
                 (Some (Returned (UpdateFatalError e)),
                  setController this (\<lambda>c. c\<lparr> fatalError := Some e \<rparr>) w1)
             | (None, w1) \<Rightarrow>
                 (case clone cur w1 of
                    (i, w2) \<Rightarrow>
                      pruneOrphans this currentControllers rest
                        (setController c
                           (\<lambda>c. c\<lparr> staging := Some i, current := None, previous := None \<rparr>) w2)))))"

definition finalize ::
  "nat \<Rightarrow> cid \<Rightarrow> cid list \<Rightarrow> outcome \<Rightarrow> world \<Rightarrow> (outcome \<times> world) option" where
  "finalize fuel this previousControllers out w =
     (case traverse fuel clearPrevious this w of
        None \<Rightarrow> None
      | Some (Some e, currentControllers, w1) \<Rightarrow> Some (Thrown e, w1)
      | Some (None, currentControllers, w1) \<Rightarrow>
          (case pruneOrphans this currentControllers previousControllers w1 of
             (Some out', w2) \<Rightarrow> Some (out', w2)
           | (None, w2) \<Rightarrow> Some (out, w2)))"

definition commitTraversal ::
  "nat \<Rightarrow> cid \<Rightarrow> world \<Rightarrow> ((error + RunResult) \<times> commitState) option" where
  "commitTraversal fuel this w =
     traverseDepthFirst fuel this commitPre commitPost noCancel
       (w, \<lparr> loads = 0, reevaluations = 0 \<rparr>, False)"

definition recover :: "nat \<Rightarrow> cid \<Rightarrow> error \<Rightarrow> commitState \<Rightarrow> (outcome \<times> world) option" where
  "recover fuel this e s = (case s of (w, stats, fatal) \<Rightarrow>
     (case traverseDepthFirst fuel this relinkPre relinkPost noCancel w of
        None \<Rightarrow> None
      | Some (Inl e', w1) \<Rightarrow> Some (Thrown e', w1)
      | Some (Inr _, w1) \<Rightarrow>
          if \<not> fatal then Some (Returned (UpdateEvaluationError e stats), w1)
          else Some (Returned (UpdateFatalError e),
                     setController this (\<lambda>c. c\<lparr> fatalError := Some e \<rparr>) w1)))"

definition commit :: "nat \<Rightarrow> cid \<Rightarrow> world \<Rightarrow> (outcome \<times> world) option" where
  "commit fuel this w =
     (case traverse fuel (\<lambda>node w. Inr w) this w of
        None \<Rightarrow> None
      | Some (Some e, seen, w1) \<Rightarrow> Some (Thrown e, w1)
      | Some (None, previousControllers, w1) \<Rightarrow>
          (case commitTraversal fuel this w1 of
             None \<Rightarrow> None
           | Some (Inr result, (w2, stats, fatal)) \<Rightarrow>
               finalize fuel this previousControllers
                 (if \<not> treeDidUpdate result then Returned Undefined
                  else Returned (UpdateSuccess stats)) w2
           | Some (Inl e, s2) \<Rightarrow>
               (case recover fuel this e s2 of
                  None \<Rightarrow> None
                | Some (out, w3) \<Rightarrow> finalize fuel this previousControllers out w3)))"

section \<open>requestUpdate\<close>

definition requestUpdate :: "nat \<Rightarrow> cid \<Rightarrow> world \<Rightarrow> (outcome \<times> world) option" where
  "requestUpdate fuel this w =
     (case fatalError (controllers w this) of
        Some e \<Rightarrow> Some (Returned (UpdateFatalError e), w)
      | None \<Rightarrow>
          (case dryRun fuel this w of
             None \<Rightarrow> None
           | Some (Inl e, w1, nextControllers) \<Rightarrow> Some (Thrown e, w1)
           | Some (Inr initialResult, w1, nextControllers) \<Rightarrow>
               if \<not> needsDispatch initialResult
               then Some (Returned Undefined, rollback nextControllers w1)
               else if hasDecline initialResult
               then Some (Returned (UpdateDeclined (flattenDeclined initialResult)),
                          rollback nextControllers w1)
               else if invalidated initialResult \<noteq> []
               then (case chainTraverse w1 initialResult [] of
                   (Inl e, marked) \<Rightarrow> Some (Thrown e, w1)
                 | (Inr chain, marked) \<Rightarrow>
                     Some (Returned (UpdateUnaccepted [chain]), rollback nextControllers w1))
               else (case (if hasNewCode initialResult then linkTest fuel this nextControllers w1
                           else Some (None, w1)) of
                   None \<Rightarrow> None
                 | Some (Some out, w2) \<Rightarrow> Some (out, w2)
                 | Some (None, w2) \<Rightarrow> commit fuel this w2)))"


section \<open>Example module graphs\<close>

text \<open>
  The worlds the closed theorems below are evaluated on.  They are built the way the host
  builds them: from a world without modules, by \<open>load\<close> (the transformed source of a module
  calling into its controller), \<open>dispatch\<close> of the root, and further \<open>load\<close>s for the files
  that changed.  Controller 0 is the root.
\<close>

definition emptyController :: ReloadableModuleController where
  "emptyController = \<lparr> current = None, pending = None, previous = None, staging = None,
     temporary = None, fatalError = None, version = 0 \<rparr>"

definition plainBody :: ModuleBody where
  "plainBody = \<lparr> throws = None, importsDynamically = [], registers = noHot \<rparr>"

definition noDeclaration :: ModuleDeclaration where
  "noDeclaration = \<lparr> declId = 0, body = plainBody, meta = None, format = [],
     importAssertions = [], usesDynamicImport = False, indirectExportEntries = [],
     starExportEntries = [], loadedModules = [] \<rparr>"

definition emptyWorld :: world where
  "emptyWorld = \<lparr> controllers = (\<lambda>_. emptyController),
     instances = (\<lambda>_. newInstance noDeclaration), nextId = 0, trace = [], evicted = [],
     evictModule = False, resolution = (\<lambda>sel d. None) \<rparr>"

definition selfAccepting :: ModuleBody where
  "selfAccepting = plainBody\<lparr> registers := noHot\<lparr> acceptsSelf := True \<rparr> \<rparr>"

definition failingAccept :: ModuleBody where
  "failingAccept = plainBody\<lparr> registers := noHot\<lparr> acceptsSelf := True, acceptSelfOk := False \<rparr> \<rparr>"

definition throwing :: ModuleBody where
  "throwing = plainBody\<lparr> throws := Some (UserError 7) \<rparr>"

definition failingDispose :: ModuleBody where
  "failingDispose = plainBody\<lparr> registers := noHot\<lparr> acceptsSelf := True,
     onDispose := Inl (UserError 9) \<rparr> \<rparr>"

definition declining :: ModuleBody where
  "declining = plainBody\<lparr> registers := noHot\<lparr> declines := True \<rparr> \<rparr>"

definition failingPrune :: ModuleBody where
  "failingPrune = plainBody\<lparr> registers := noHot\<lparr> onPrune := Some (UserError 4) \<rparr> \<rparr>"

definition request :: "cid \<Rightarrow> LoadedModuleRequestEntry" where
  "request c = \<lparr> controller = c, reloadable = True, bindings = [] \<rparr>"

definition loadModule :: "cid \<Rightarrow> ModuleBody \<Rightarrow> cid list \<Rightarrow> world \<Rightarrow> world" where
  "loadModule c b deps w = load c b None False ''module'' [] (map request deps) w"

definition dispatched :: "world \<Rightarrow> world" where
  "dispatched w = (case dispatch 5 0 w of Some (_, w1) \<Rightarrow> w1 | None \<Rightarrow> w)"

text \<open>The test \<open>simple test\<close>: main imports child and accepts itself; child is edited.\<close>

definition simpleWorld :: world where
  "simpleWorld = loadModule 1 plainBody []
     (dispatched (loadModule 0 selfAccepting [1] (loadModule 1 plainBody [] emptyWorld)))"

text \<open>A root that accepts itself, and whose accept callback fails, is edited.\<close>

definition failingAcceptWorld :: world where
  "failingAcceptWorld = loadModule 0 failingAccept []
     (dispatched (loadModule 0 failingAccept [] emptyWorld))"

text \<open>A root that accepts itself is edited and now imports a new module whose body throws.\<close>

definition newImportThrowsWorld :: world where
  "newImportThrowsWorld = loadModule 0 selfAccepting [1] (loadModule 1 throwing []
     (dispatched (loadModule 0 selfAccepting [] emptyWorld)))"

text \<open>Root 0 accepts itself and imports module 1; module 1 is edited and now imports the
  new module 2, which imports module 1 back and whose body throws.\<close>

definition newCycleThrowsWorld :: world where
  "newCycleThrowsWorld = loadModule 1 plainBody [2] (loadModule 2 throwing [1]
     (dispatched (loadModule 0 selfAccepting [1] (loadModule 1 plainBody [] emptyWorld))))"

text \<open>A root whose \<open>dispose\<close> callback throws is edited.\<close>

definition failingDisposeWorld :: world where
  "failingDisposeWorld = loadModule 0 failingDispose []
     (dispatched (loadModule 0 failingDispose [] emptyWorld))"

text \<open>The root imports a module that declines; the module is edited.\<close>

definition decliningWorld :: world where
  "decliningWorld = loadModule 1 declining []
     (dispatched (loadModule 0 selfAccepting [1] (loadModule 1 declining [] emptyWorld)))"

text \<open>The test \<open>link error is recoverable from parent\<close>: the edited child no longer links
  with main.  The host's name resolution refuses main's declaration (2) against the child's
  second declaration (4).\<close>

definition linkErrorWorld :: world where
  "linkErrorWorld = loadModule 1 plainBody []
     (dispatched (loadModule 0 selfAccepting [1] (loadModule 1 plainBody []
        (emptyWorld\<lparr> resolution := (\<lambda>sel d.
           if declId d = 2 \<and> map_option declId (sel 1) = Some 4
           then Some (SyntaxError 0) else None) \<rparr>))))"

text \<open>The root is edited and no longer imports modules 1 and 2; the \<open>prune\<close> callback of
  module 1 throws in the second world.\<close>

definition orphansWorld :: world where
  "orphansWorld = loadModule 0 selfAccepting []
     (dispatched (loadModule 0 selfAccepting [1, 2]
        (loadModule 2 plainBody [] (loadModule 1 plainBody [] emptyWorld))))"

definition failingPruneWorld :: world where
  "failingPruneWorld = loadModule 0 selfAccepting []
     (dispatched (loadModule 0 selfAccepting [1, 2]
        (loadModule 2 plainBody [] (loadModule 1 failingPrune [] emptyWorld))))"

text \<open>The world in which the second and the third phase start, for the examples.\<close>

definition afterDryRun :: "world \<Rightarrow> world" where
  "afterDryRun w = (case dryRun 5 0 w of Some (_, w1, _) \<Rightarrow> w1 | None \<Rightarrow> w)"

definition beforeCommit :: "world \<Rightarrow> world" where
  "beforeCommit w = (case dryRun 5 0 w of
       Some (_, w1, nextControllers) \<Rightarrow>
         (case linkTest 5 0 nextControllers w1 of Some (_, w2) \<Rightarrow> w2 | None \<Rightarrow> w1)
     | None \<Rightarrow> w)"


section \<open>Predicates of the proofs\<close>

text \<open>
  What the proofs about the traversal carry along: the component an unfinished node belongs to
  never reaches above the node itself (\<open>indexed\<close>); the stack holds visited nodes, each once
  (\<open>stacked\<close>); every result kept in the bookkeeping satisfies a given property
  (\<open>resultsSatisfy\<close>); a later state of the bookkeeping has the earlier stack as its lower
  part, with only new nodes above it, and keeps the index of every node (\<open>extends\<close>);
  \<open>advances\<close> puts these together with an invariant \<open>J\<close> of the caller's state that may
  depend on the set of the visited nodes and on the set of the nodes on the stack; and a node
  that was visited is either finished, with the stack as it was before, or part of a
  component that reaches above it (\<open>settled\<close>).
\<close>

definition indexed :: "'r Traversal \<Rightarrow> bool" where
  "indexed t = (\<forall>c st. visited t c = Some st \<longrightarrow> ancestorIndex st \<le> nodeIndex st)"

definition stacked :: "'r Traversal \<Rightarrow> bool" where
  "stacked t = (distinct (stack t) \<and> set (stack t) \<subseteq> dom (visited t))"

definition resultsSatisfy :: "('r \<Rightarrow> bool) \<Rightarrow> 'r Traversal \<Rightarrow> bool" where
  "resultsSatisfy Q t = (\<forall>c st. visited t c = Some st \<longrightarrow>
     list_all Q (map snd (forwards st)) \<and> (\<forall>x. nodeResult st = Some x \<longrightarrow> Q x))"

definition extends :: "'r Traversal \<Rightarrow> 'r Traversal \<Rightarrow> bool" where
  "extends t t' = ((\<exists>extra. stack t' = extra @ stack t \<and> (\<forall>m \<in> set extra. visited t m = None)) \<and>
     (\<forall>c st. visited t c = Some st \<longrightarrow> (\<exists>st'. visited t' c = Some st' \<and> nodeIndex st' = nodeIndex st)))"

definition advances ::
  "('r \<Rightarrow> bool) \<Rightarrow> (cid set \<Rightarrow> cid set \<Rightarrow> 's \<Rightarrow> bool) \<Rightarrow> 'r Traversal \<Rightarrow> 'r Traversal \<Rightarrow> 's \<Rightarrow> bool" where
  "advances Q J t t' s' = (indexed t' \<and> stacked t' \<and> resultsSatisfy Q t' \<and>
     J (dom (visited t')) (set (stack t')) s' \<and> extends t t')"

definition settled :: "cid \<Rightarrow> 'r Traversal \<Rightarrow> 'r Traversal \<Rightarrow> bool" where
  "settled n t t' = (\<exists>st'. visited t' n = Some st' \<and> nodeIndex st' = counter t \<and>
     (stack t' = stack t \<and> nodeResult st' \<noteq> None \<or> ancestorIndex st' < nodeIndex st'))"

text \<open>What a call of the traversal has established when it ends: \<open>advances\<close> and \<open>settled\<close>
  when it returns, the property \<open>E\<close> of the caller's state when it throws.\<close>

definition visitEnds ::
  "('r \<Rightarrow> bool) \<Rightarrow> (cid set \<Rightarrow> cid set \<Rightarrow> 's \<Rightarrow> bool) \<Rightarrow> ('s \<Rightarrow> bool) \<Rightarrow>
   'r Traversal \<Rightarrow> error option \<Rightarrow> 'r Traversal \<Rightarrow> 's \<Rightarrow> bool" where
  "visitEnds Q J E t r t' s' = (case r of None \<Rightarrow> advances Q J t t' s' | Some e \<Rightarrow> E s')"

text \<open>The \<open>fatalError\<close> fields of all controllers.\<close>

definition fatals :: "world \<Rightarrow> cid \<Rightarrow> error option" where
  "fatals w = (\<lambda>c. fatalError (controllers w c))"

text \<open>
  The dry run.  \<open>frameOf D w w'\<close>: the world \<open>w'\<close> is \<open>w\<close> but for the \<open>pending\<close> and \<open>previous\<close>
  slots of the controllers in \<open>D\<close>.  \<open>declinedAt\<close>: the controller has a current instance and
  that instance is declined.  \<open>flattenInvalidated\<close> lists the invalidated members of all the
  components of a result, in the order in which \<open>flattenDeclined\<close> lists the declined ones.
  \<open>dryRunSound\<close> is what the result of every component satisfies.
\<close>

definition frameOf :: "cid set \<Rightarrow> world \<Rightarrow> world \<Rightarrow> bool" where
  "frameOf D w w' = (w' = w\<lparr> controllers := controllers w' \<rparr> \<and>
     (\<forall>c. (c \<notin> D \<longrightarrow> controllers w' c = controllers w c) \<and>
          controllers w' c = (controllers w c)\<lparr> pending := pending (controllers w' c),
            previous := previous (controllers w' c) \<rparr>))"

definition declinedAt :: "world \<Rightarrow> cid \<Rightarrow> bool" where
  "declinedAt w node = (case current (controllers w node) of
       None \<Rightarrow> False
     | Some cur \<Rightarrow> isDeclined cur w)"

fun flattenInvalidated :: "DryRunResult \<Rightarrow> cid list" where
  "flattenInvalidated (DryRunResult frs d i b1 b2 b3) = i @ concat (map flattenInvalidated frs)"

definition dryRunSound :: "world \<Rightarrow> DryRunResult \<Rightarrow> bool" where
  "dryRunSound w r = ((flattenInvalidated r \<noteq> [] \<longrightarrow> needsDispatch r) \<and>
     (hasDecline r \<longleftrightarrow> flattenDeclined r \<noteq> []) \<and>
     flattenDeclined r = filter (declinedAt w) (flattenInvalidated r))"

text \<open>
  The allocator.  \<open>slotsOf\<close> are the instances a controller holds in its five slots;
  in an \<open>allocated\<close> world every one of them was handed out by the counter \<open>nextId\<close>.
\<close>

definition slotsOf :: "ReloadableModuleController \<Rightarrow> iid set" where
  "slotsOf c = set_option (current c) \<union> set_option (pending c) \<union> set_option (previous c) \<union>
     set_option (staging c) \<union> set_option (temporary c)"

definition allocated :: "world \<Rightarrow> bool" where
  "allocated w = (\<forall>c. \<forall>i \<in> slotsOf (controllers w c). i < nextId w)"


section \<open>Properties of the traversal primitive\<close>

text \<open>The definitions of the model, for evaluating it on the example graphs.\<close>

lemmas model_defs =
  noHot_def newInstance_def setController_def setInstance_def allocate_def isIndirect_def
  exportedAs_def indirectEntriesOf_def starEntriesOf_def load_def selectCurrent_def select_def
  iterate_def iterateWithDynamics_def emptyTraversal_def enter_def updateNode_def addForward_def
  absorb_def
  component_def finish_def isComponentRoot_def forwardsOf_def traverseDepthFirst_def
  noCancel_def instantiate_def selectedDeclarations_def link_def relink_def unlink_def clone_def
  evaluate_def iterateDependencies_def isAccepted_def isAcceptedSelf_def isDeclined_def
  isInvalidated_def tryAccept_def tryAcceptSelf_def dispose_def prune_def traverse_def
  selectStaging_def dispatchInstantiate_def dispatchLinkStep_def dispatchLink_def
  dispatchCancel_def dispatch_def selectPending_def selectPreviousOrPending_def dryRunPre_def
  dryRunNode_def dryRunPost_def clearUpdate_def dryRunCancel_def dryRun_def rollback_def
  chainNext_def selectTemporary_def selectTemporaryOrPending_def linkTestPre_def
  linkTestPost_def linkTestTraversal_def linkTest_def selectPreviousOrPendingOf_def
  commitPre_def evaluateStep_def replaceComponent_def commitPost_def relinkPre_def
  clearPrevious_def finalize_def commitTraversal_def recover_def commit_def requestUpdate_def
  emptyController_def plainBody_def noDeclaration_def emptyWorld_def selfAccepting_def
  failingAccept_def throwing_def failingDispose_def declining_def failingPrune_def request_def
  loadModule_def dispatched_def simpleWorld_def failingAcceptWorld_def newImportThrowsWorld_def
  newCycleThrowsWorld_def failingDisposeWorld_def decliningWorld_def linkErrorWorld_def
  orphansWorld_def failingPruneWorld_def afterDryRun_def beforeCommit_def

lemma visitNode_SucE:
  assumes "visitNode (Suc fuel) visitPre visitPost onCancel n t s = Some (r, t', s')"
  obtains
    (preThrows) e where "visitPre n s = (Inl e, s')" "r = Some e" "t' = enter n t"
  | (childThrows) cs s1 e where "visitPre n s = (Inr cs, s1)"
      "visitChildren fuel visitPre visitPost onCancel n cs (enter n t) s1 = Some (Some e, t', s')"
      "r = Some e"
  | (inner) cs s1 where "visitPre n s = (Inr cs, s1)"
      "visitChildren fuel visitPre visitPost onCancel n cs (enter n t) s1 = Some (None, t', s')"
      "\<not> isComponentRoot n t'" "r = None"
  | (postThrows) cs s1 t2 s2 cycleNodes rest e s3 where "visitPre n s = (Inr cs, s1)"
      "visitChildren fuel visitPre visitPost onCancel n cs (enter n t) s1 = Some (None, t2, s2)"
      "isComponentRoot n t2" "component n (stack t2) = (cycleNodes, rest)"
      "visitPost cycleNodes (forwardsOf n t2) s2 = (Inl e, s3)"
      "r = Some e" "t' = t2\<lparr> stack := rest \<rparr>" "s' = onCancel rest s3"
  | (root) cs s1 t2 s2 cycleNodes rest x where "visitPre n s = (Inr cs, s1)"
      "visitChildren fuel visitPre visitPost onCancel n cs (enter n t) s1 = Some (None, t2, s2)"
      "isComponentRoot n t2" "component n (stack t2) = (cycleNodes, rest)"
      "visitPost cycleNodes (forwardsOf n t2) s2 = (Inr x, s')"
      "r = None" "t' = finish n cycleNodes x (t2\<lparr> stack := rest \<rparr>)"
  using assms
  by (auto split: prod.splits sum.splits option.splits if_splits)

lemma visitChildren_ConsE:
  assumes "visitChildren fuel visitPre visitPost onCancel n (c # cs) t s = Some (r, t', s')"
  obtains
    (seen) child where "visited t c = Some child"
      "visitChildren fuel visitPre visitPost onCancel n cs (absorb False n child t) s = Some (r, t', s')"
  | (throws) e where "visited t c = None"
      "visitNode fuel visitPre visitPost onCancel c t s = Some (Some e, t', s')" "r = Some e"
  | (lost) "visited t c = None"
      "visitNode fuel visitPre visitPost onCancel c t s = Some (None, t', s')"
      "visited t' c = None" "r = Some AssertionError"
  | (returned) t1 s1 child where "visited t c = None"
      "visitNode fuel visitPre visitPost onCancel c t s = Some (None, t1, s1)"
      "visited t1 c = Some child"
      "visitChildren fuel visitPre visitPost onCancel n cs (absorb True n child t1) s1 = Some (r, t', s')"
  using assms
  by (auto split: prod.splits sum.splits option.splits if_splits)

lemma visitChildren_preserves:
  assumes node: "\<And>c t s r t' s'. visitNode fuel visitPre visitPost onCancel c t s = Some (r, t', s')
       \<Longrightarrow> P s \<Longrightarrow> P s'"
  shows "visitChildren fuel visitPre visitPost onCancel n cs t s = Some (r, t', s') \<Longrightarrow> P s \<Longrightarrow> P s'"
proof (induction cs arbitrary: t s)
  case Nil
  then show ?case by simp
next
  case (Cons c cs)
  from Cons.prems(1) show ?case
  proof (cases rule: visitChildren_ConsE)
    case (seen child)
    then show ?thesis using Cons.IH Cons.prems(2) by blast
  next
    case (throws e)
    then show ?thesis using node Cons.prems(2) by blast
  next
    case lost
    then show ?thesis using node Cons.prems(2) by blast
  next
    case (returned t1 s1 child)
    then show ?thesis using node Cons.IH Cons.prems(2) by blast
  qed
qed

lemma visitNode_preserves:
  assumes pre: "\<And>n s. P s \<Longrightarrow> P (snd (visitPre n s))"
      and post: "\<And>ns frs s. P s \<Longrightarrow> P (snd (visitPost ns frs s))"
      and cancel: "\<And>ns s. P s \<Longrightarrow> P (onCancel ns s)"
  shows "visitNode fuel visitPre visitPost onCancel n t s = Some (r, t', s') \<Longrightarrow> P s \<Longrightarrow> P s'"
proof (induction fuel arbitrary: n t s r t' s')
  case 0
  then show ?case by simp
next
  case (Suc fuel)
  have children: "P s2" if "visitChildren fuel visitPre visitPost onCancel m cs t1 s1 = Some (r1, t2, s2)"
    and "P s1" for m cs t1 s1 r1 t2 s2
    using visitChildren_preserves[where P = P, OF Suc.IH that] .
  from Suc.prems(1) show ?case
  proof (cases rule: visitNode_SucE)
    case (preThrows e)
    then show ?thesis using pre[OF Suc.prems(2), of n] by simp
  next
    case (childThrows cs s1 e)
    then show ?thesis using pre[OF Suc.prems(2), of n] children by fastforce
  next
    case (inner cs s1)
    then show ?thesis using pre[OF Suc.prems(2), of n] children by fastforce
  next
    case (postThrows cs s1 t2 s2 cycleNodes rest e s3)
    have "P s1" using pre[OF Suc.prems(2), of n] postThrows(1) by simp
    then have "P s2" using children postThrows(2) by blast
    then have "P s3" using post[of s2 cycleNodes "forwardsOf n t2"] postThrows(5) by simp
    then show ?thesis using cancel postThrows(8) by simp
  next
    case (root cs s1 t2 s2 cycleNodes rest x)
    have "P s1" using pre[OF Suc.prems(2), of n] root(1) by simp
    then have "P s2" using children root(2) by blast
    then show ?thesis using post[of s2 cycleNodes "forwardsOf n t2"] root(5) by simp
  qed
qed

lemma traverseDepthFirst_preserves:
  assumes pre: "\<And>n s. P s \<Longrightarrow> P (snd (visitPre n s))"
      and post: "\<And>ns frs s. P s \<Longrightarrow> P (snd (visitPost ns frs s))"
      and cancel: "\<And>ns s. P s \<Longrightarrow> P (onCancel ns s)"
      and run: "traverseDepthFirst fuel root visitPre visitPost onCancel s = Some (r, s')"
      and P: "P s"
  shows "P s'"
proof -
  obtain r0 t' where "visitNode fuel visitPre visitPost onCancel root emptyTraversal s = Some (r0, t', s')"
    using run by (auto simp: traverseDepthFirst_def split: option.splits prod.splits)
  then show ?thesis using visitNode_preserves[of P visitPre visitPost onCancel, OF pre post cancel _ P] by blast
qed

lemma visited_updateNode:
  "visited (updateNode n f t) c = (if c = n then map_option f (visited t n) else visited t c)"
  by (cases "visited t n") (auto simp: updateNode_def)

lemma stack_updateNode [simp]: "stack (updateNode n f t) = stack t"
  by (cases "visited t n") (auto simp: updateNode_def)

lemma stack_absorb [simp]: "stack (absorb b n child t) = stack t"
  by (auto simp: absorb_def split: option.splits)

lemma set_addForward: "set (addForward kv xs) \<subseteq> insert kv (set xs)"
  by (auto simp: addForward_def)

lemma set_fold_addForward: "set (fold addForward ys xs) \<subseteq> set xs \<union> set ys"
proof (induction ys arbitrary: xs)
  case Nil
  then show ?case by simp
next
  case (Cons y ys)
  show ?case using Cons.IH[of "addForward y xs"] set_addForward[of y xs] by auto
qed

lemma visited_absorb_index:
  "visited (absorb b n child t) c = Some st' \<Longrightarrow>
     \<exists>st. visited t c = Some st \<and> nodeIndex st' = nodeIndex st \<and> ancestorIndex st' \<le> ancestorIndex st
       \<and> nodeResult st' = nodeResult st
       \<and> snd ` set (forwards st') \<subseteq> snd ` set (forwards st) \<union> snd ` set (forwards child)
            \<union> set_option (nodeResult child)"
proof (cases "nodeResult child")
  case (Some r)
  assume v: "visited (absorb b n child t) c = Some st'"
  show ?thesis
  proof (cases "c = n")
    case False
    then show ?thesis using v Some by (auto simp: absorb_def visited_updateNode)
  next
    case True
    then obtain st where st: "visited t n = Some st"
        "st' = st\<lparr> forwards := addForward (componentRoot child, r) (forwards st) \<rparr>"
      using v Some by (auto simp: absorb_def visited_updateNode)
    have "snd ` set (forwards st') \<subseteq> insert r (snd ` set (forwards st))"
      using set_addForward[of "(componentRoot child, r)" "forwards st"] st(2) by auto
    then show ?thesis using st True Some by auto
  qed
next
  case None
  assume v: "visited (absorb b n child t) c = Some st'"
  show ?thesis
  proof (cases "c = n \<and> b")
    case False
    then show ?thesis using v None
      by (auto simp: absorb_def visited_updateNode split: if_splits)
  next
    case True
    then obtain st where st: "visited t n = Some st"
        "st' = st\<lparr> ancestorIndex := min (ancestorIndex st) (ancestorIndex child),
           forwards := fold addForward (forwards child) (forwards st) \<rparr>"
      using v None by (auto simp: absorb_def visited_updateNode)
    have "set (forwards st') \<subseteq> set (forwards st) \<union> set (forwards child)"
      using set_fold_addForward[of "forwards child" "forwards st"] st(2) by simp
    then have "snd ` set (forwards st') \<subseteq> snd ` set (forwards st) \<union> snd ` set (forwards child)"
      by blast
    then show ?thesis using st True by auto
  qed
qed

lemma visited_absorb_dom:
  "visited (absorb b n child t) c = None \<longleftrightarrow> visited t c = None"
  by (auto simp: absorb_def visited_updateNode split: option.splits if_splits)

lemma visited_absorb_Some:
  "visited t c = Some st \<Longrightarrow> \<exists>st'. visited (absorb b n child t) c = Some st' \<and> nodeIndex st' = nodeIndex st"
  by (auto simp: absorb_def visited_updateNode split: option.splits if_splits)

lemma stack_finish [simp]: "stack (finish k ns r t) = stack t"
  unfolding finish_def by (induction ns arbitrary: t) auto

lemma visited_finish:
  "visited (finish k ns r t) c =
     (if c \<in> set ns then map_option (\<lambda>st. st\<lparr> nodeResult := Some r, componentRoot := k \<rparr>) (visited t c)
      else visited t c)"
  unfolding finish_def
proof (induction ns arbitrary: t)
  case Nil
  then show ?case by simp
next
  case (Cons a ns)
  show ?case
    by (cases "visited t c") (auto simp: Cons.IH visited_updateNode)
qed

lemma dom_visited_absorb [simp]: "dom (visited (absorb b n child t)) = dom (visited t)"
  using visited_absorb_dom[of b n child t] by (auto simp: dom_def)

lemma dom_visited_finish [simp]: "dom (visited (finish k ns r t)) = dom (visited t)"
  by (auto simp: dom_def visited_finish)

lemma dom_visited_enter [simp]: "dom (visited (enter n t)) = insert n (dom (visited t))"
  by (auto simp: enter_def)

lemma indexed_absorb: "indexed t \<Longrightarrow> indexed (absorb b n child t)"
  unfolding indexed_def by (metis visited_absorb_index le_trans)

lemma stacked_absorb: "stacked t \<Longrightarrow> stacked (absorb b n child t)"
  unfolding stacked_def by simp

lemma resultsSatisfy_absorb:
  assumes "resultsSatisfy Q t" "visited t c = Some child"
  shows "resultsSatisfy Q (absorb b n child t)"
  unfolding resultsSatisfy_def
proof (intro allI impI)
  fix m st' assume "visited (absorb b n child t) m = Some st'"
  then obtain st where st: "visited t m = Some st" "nodeResult st' = nodeResult st"
      "snd ` set (forwards st') \<subseteq> snd ` set (forwards st) \<union> snd ` set (forwards child)
         \<union> set_option (nodeResult child)"
    using visited_absorb_index by blast
  have a: "\<forall>x \<in> snd ` set (forwards st). Q x" "\<forall>x. nodeResult st = Some x \<longrightarrow> Q x"
    using assms(1) st(1) unfolding resultsSatisfy_def by (auto simp: list_all_iff)
  have b: "\<forall>x \<in> snd ` set (forwards child). Q x" "\<forall>x. nodeResult child = Some x \<longrightarrow> Q x"
    using assms unfolding resultsSatisfy_def by (auto simp: list_all_iff)
  have "\<forall>x \<in> snd ` set (forwards st'). Q x"
    using st(3) a(1) b by blast
  then show "list_all Q (map snd (forwards st')) \<and> (\<forall>x. nodeResult st' = Some x \<longrightarrow> Q x)"
    using a(2) st(2) by (simp add: list_all_iff)
qed

lemma extends_refl: "extends t t"
  unfolding extends_def by auto

lemma extends_trans:
  assumes "extends t t1" "extends t1 t2"
  shows "extends t t2"
proof -
  obtain e1 where e1: "stack t1 = e1 @ stack t" "\<forall>m \<in> set e1. visited t m = None"
    using assms(1) unfolding extends_def by blast
  obtain e2 where e2: "stack t2 = e2 @ stack t1" "\<forall>m \<in> set e2. visited t1 m = None"
    using assms(2) unfolding extends_def by blast
  have keep1: "\<And>c st. visited t c = Some st \<Longrightarrow> \<exists>st'. visited t1 c = Some st' \<and> nodeIndex st' = nodeIndex st"
    using assms(1) unfolding extends_def by blast
  have keep2: "\<And>c st. visited t1 c = Some st \<Longrightarrow> \<exists>st'. visited t2 c = Some st' \<and> nodeIndex st' = nodeIndex st"
    using assms(2) unfolding extends_def by blast
  have "\<forall>m \<in> set e2. visited t m = None"
  proof
    fix m assume "m \<in> set e2"
    then have "visited t1 m = None" using e2(2) by blast
    then show "visited t m = None" using keep1[of m] by (cases "visited t m") auto
  qed
  then have "stack t2 = (e2 @ e1) @ stack t \<and> (\<forall>m \<in> set (e2 @ e1). visited t m = None)"
    using e1 e2 by auto
  moreover have "\<forall>c st. visited t c = Some st \<longrightarrow> (\<exists>st'. visited t2 c = Some st' \<and> nodeIndex st' = nodeIndex st)"
    using keep1 keep2 by (metis)
  ultimately show ?thesis unfolding extends_def by blast
qed

lemma extends_absorb: "extends t (absorb b n child t)"
  unfolding extends_def using visited_absorb_Some by fastforce

lemma extends_enter: "visited t n = None \<Longrightarrow> extends t (enter n t)"
  unfolding extends_def enter_def by (auto intro: exI[of _ "[n]"])

lemma advances_trans:
  "extends t t1 \<Longrightarrow> advances Q J t1 t2 s2 \<Longrightarrow> advances Q J t t2 s2"
  unfolding advances_def using extends_trans by blast

lemma indexed_enter: "indexed t \<Longrightarrow> indexed (enter n t)"
  unfolding indexed_def enter_def by auto

lemma stacked_enter: "stacked t \<Longrightarrow> visited t n = None \<Longrightarrow> stacked (enter n t)"
  unfolding stacked_def enter_def by auto

lemma resultsSatisfy_enter: "resultsSatisfy Q t \<Longrightarrow> resultsSatisfy Q (enter n t)"
  unfolding resultsSatisfy_def enter_def by auto

lemma indexed_finish: "indexed t \<Longrightarrow> indexed (finish k ns r (t\<lparr> stack := rest \<rparr>))"
  unfolding indexed_def by (auto simp: visited_finish split: if_splits)

lemma resultsSatisfy_finish:
  "resultsSatisfy Q t \<Longrightarrow> Q r \<Longrightarrow> resultsSatisfy Q (finish k ns r (t\<lparr> stack := rest \<rparr>))"
  unfolding resultsSatisfy_def by (auto simp: visited_finish split: if_splits)

lemma component_split:
  assumes "\<forall>m \<in> set extra. m \<noteq> n"
  shows "component n (extra @ n # stk) = (extra @ [n], stk)"
  using assms by (simp add: component_def takeWhile_append2 dropWhile_append2)

lemma list_all_forwardsOf: "resultsSatisfy Q t \<Longrightarrow> list_all Q (forwardsOf n t)"
  unfolding resultsSatisfy_def forwardsOf_def by (auto split: option.splits)

text \<open>
  The rule for the traversal.  The caller's invariant \<open>J\<close> is established by the pre-visit of
  a node that was not visited before, for the sets with that node added; the post-visit of a
  component, whose nodes are distinct and above the rest of the stack, re-establishes it for
  the rest of the stack and gives a result with the property \<open>Q\<close>, provided the results of the
  successors have it.  A hook that throws establishes \<open>E\<close>.  \<open>A\<close> is a property of the root
  that every pre-visit passes on to the children.
\<close>

lemma visitChildren_rule:
  assumes node: "\<forall>c t s r t' s'. visitNode fuel visitPre visitPost onCancel c t s = Some (r, t', s')
       \<longrightarrow> visited t c = None \<longrightarrow> indexed t \<longrightarrow> stacked t \<longrightarrow> resultsSatisfy Q t
       \<longrightarrow> J (dom (visited t)) (set (stack t)) s \<longrightarrow> A c
       \<longrightarrow> visitEnds Q J E t r t' s' \<and> (r = None \<longrightarrow> visited t' c \<noteq> None)"
  shows "visitChildren fuel visitPre visitPost onCancel n cs t s = Some (r, t', s')
       \<Longrightarrow> indexed t \<Longrightarrow> stacked t \<Longrightarrow> resultsSatisfy Q t \<Longrightarrow> J (dom (visited t)) (set (stack t)) s
       \<Longrightarrow> list_all A cs \<Longrightarrow> visitEnds Q J E t r t' s'"
proof (induction cs arbitrary: t s)
  case Nil
  then show ?case by (simp add: visitEnds_def advances_def extends_refl)
next
  case (Cons c cs)
  from Cons.prems(1) show ?case
  proof (cases rule: visitChildren_ConsE)
    case (seen child)
    have "visitEnds Q J E (absorb False n child t) r t' s'"
      using Cons.IH[OF seen(2)] Cons.prems(2-6) seen(1)
      by (simp add: indexed_absorb stacked_absorb resultsSatisfy_absorb)
    then show ?thesis
      unfolding visitEnds_def using advances_trans[OF extends_absorb] by (auto split: option.splits)
  next
    case (throws e)
    then show ?thesis using node Cons.prems(2-6) by (fastforce simp: visitEnds_def)
  next
    case lost
    then show ?thesis using node Cons.prems(2-6) by fastforce
  next
    case (returned t1 s1 child)
    have a1: "advances Q J t t1 s1"
      using node returned(1,2) Cons.prems(2-6) by (fastforce simp: visitEnds_def)
    then have "visitEnds Q J E (absorb True n child t1) r t' s'"
      using Cons.IH[OF returned(4)] returned(3) Cons.prems(6)
      by (simp add: advances_def indexed_absorb stacked_absorb resultsSatisfy_absorb)
    moreover have "extends t (absorb True n child t1)"
      using a1 extends_trans[OF _ extends_absorb] unfolding advances_def by blast
    ultimately show ?thesis
      unfolding visitEnds_def using advances_trans by (auto split: option.splits)
  qed
qed

lemma visitNode_rule:
  assumes pre: "\<forall>D S n s r s1. J D S s \<longrightarrow> A n \<longrightarrow> n \<notin> D \<longrightarrow> visitPre n s = (r, s1) \<longrightarrow>
         (case r of Inr cs \<Rightarrow> J (insert n D) (insert n S) s1 \<and> list_all A cs | Inl e \<Rightarrow> E s1)"
      and post: "\<forall>D S ns frs s r s1 rest. J D (set ns \<union> S) s \<longrightarrow> distinct ns \<longrightarrow> set ns \<inter> S = {} \<longrightarrow>
         set rest = S \<longrightarrow> list_all Q frs \<longrightarrow> visitPost ns frs s = (r, s1) \<longrightarrow>
         (case r of Inr x \<Rightarrow> J D S s1 \<and> Q x | Inl e \<Rightarrow> E (onCancel rest s1))"
  shows "visitNode fuel visitPre visitPost onCancel n t s = Some (r, t', s')
       \<Longrightarrow> visited t n = None \<Longrightarrow> indexed t \<Longrightarrow> stacked t \<Longrightarrow> resultsSatisfy Q t
       \<Longrightarrow> J (dom (visited t)) (set (stack t)) s \<Longrightarrow> A n
       \<Longrightarrow> visitEnds Q J E t r t' s' \<and> (r = None \<longrightarrow> settled n t t')"
proof (induction fuel arbitrary: n t s r t' s')
  case 0
  then show ?case by simp
next
  case (Suc fuel)
  have settledD: "visited t2 m \<noteq> None" if "settled m t1 t2" for m and t1 t2 :: "'b Traversal"
    using that unfolding settled_def by auto
  have children: "visitEnds Q J E t1 r1 t2 s2"
    if "visitChildren fuel visitPre visitPost onCancel m cs t1 s1 = Some (r1, t2, s2)"
      and "indexed t1" and "stacked t1" and "resultsSatisfy Q t1"
      and "J (dom (visited t1)) (set (stack t1)) s1" and "list_all A cs"
    for m cs t1 s1 r1 t2 s2
  proof (rule visitChildren_rule[where Q = Q and J = J and A = A and E = E, OF _ that])
    show "\<forall>c t s r t' s'. visitNode fuel visitPre visitPost onCancel c t s = Some (r, t', s')
       \<longrightarrow> visited t c = None \<longrightarrow> indexed t \<longrightarrow> stacked t \<longrightarrow> resultsSatisfy Q t
       \<longrightarrow> J (dom (visited t)) (set (stack t)) s \<longrightarrow> A c
       \<longrightarrow> visitEnds Q J E t r t' s' \<and> (r = None \<longrightarrow> visited t' c \<noteq> None)"
      using Suc.IH settledD by blast
  qed
  have fresh: "n \<notin> dom (visited t)" using Suc.prems(2) by auto
  have ext: "extends t (enter n t)" using Suc.prems(2) by (rule extends_enter)
  have entered: "visited (enter n t) n = Some \<lparr> nodeIndex = counter t, ancestorIndex = counter t,
       forwards = [], nodeResult = None, componentRoot = n \<rparr>"
    by (simp add: enter_def)
  have start: "indexed (enter n t)" "stacked (enter n t)" "resultsSatisfy Q (enter n t)"
    using Suc.prems(2-5) by (simp_all add: indexed_enter stacked_enter resultsSatisfy_enter)
  have preD: "J (dom (visited (enter n t))) (set (stack (enter n t))) s1 \<and> list_all A cs"
    if "visitPre n s = (Inr cs, s1)" for cs s1
    using pre Suc.prems(6,7) fresh that by (fastforce simp: enter_def)
  from Suc.prems(1) show ?case
  proof (cases rule: visitNode_SucE)
    case (preThrows e)
    then show ?thesis using pre Suc.prems(6,7) fresh by (fastforce simp: visitEnds_def)
  next
    case (childThrows cs s1 e)
    then show ?thesis
      using children[OF childThrows(2) start] preD[OF childThrows(1)] by (simp add: visitEnds_def)
  next
    case (inner cs s1)
    have adv: "advances Q J (enter n t) t' s'"
      using children[OF inner(2) start] preD[OF inner(1)] by (simp add: visitEnds_def)
    then obtain st' where st': "visited t' n = Some st'" "nodeIndex st' = counter t"
      using entered unfolding advances_def extends_def by fastforce
    have "ancestorIndex st' \<le> nodeIndex st'"
      using adv st'(1) unfolding advances_def indexed_def by blast
    moreover have "ancestorIndex st' \<noteq> nodeIndex st'"
      using inner(3) st'(1) by (simp add: isComponentRoot_def)
    ultimately have "settled n t t'" using st' unfolding settled_def by auto
    moreover have "advances Q J t t' s'" using adv by (rule advances_trans[OF ext])
    ultimately show ?thesis using inner(4) by (simp add: visitEnds_def)
  next
    case (postThrows cs s1 t2 s2 cycleNodes rest e s3)
    have adv: "advances Q J (enter n t) t2 s2"
      using children[OF postThrows(2) start] preD[OF postThrows(1)] by (simp add: visitEnds_def)
    then obtain extra where extra: "stack t2 = extra @ n # stack t"
        "\<forall>m \<in> set extra. visited (enter n t) m = None"
      unfolding advances_def extends_def by (auto simp: enter_def)
    have "\<forall>m \<in> set extra. m \<noteq> n" using extra(2) entered by auto
    then have comp: "cycleNodes = extra @ [n]" "rest = stack t"
      using postThrows(4) extra(1) component_split[of extra n "stack t"] by auto
    have dist: "distinct (stack t2)" using adv unfolding advances_def stacked_def by blast
    have "set cycleNodes \<union> set rest = set (stack t2)" using extra(1) comp by auto
    moreover have "J (dom (visited t2)) (set (stack t2)) s2" using adv unfolding advances_def by blast
    ultimately have "J (dom (visited t2)) (set cycleNodes \<union> set rest) s2" by simp
    moreover have "distinct cycleNodes" "set cycleNodes \<inter> set rest = {}"
      using dist extra(1) comp by auto
    moreover have "list_all Q (forwardsOf n t2)"
      using adv list_all_forwardsOf unfolding advances_def by blast
    ultimately have "E (onCancel rest s3)"
      using post postThrows(5) by fastforce
    then show ?thesis using postThrows(6,8) by (simp add: visitEnds_def)
  next
    case (root cs s1 t2 s2 cycleNodes rest x)
    have adv: "advances Q J (enter n t) t2 s2"
      using children[OF root(2) start] preD[OF root(1)] by (simp add: visitEnds_def)
    then obtain extra where extra: "stack t2 = extra @ n # stack t"
        "\<forall>m \<in> set extra. visited (enter n t) m = None"
      unfolding advances_def extends_def by (auto simp: enter_def)
    have "\<forall>m \<in> set extra. m \<noteq> n" using extra(2) entered by auto
    then have comp: "cycleNodes = extra @ [n]" "rest = stack t"
      using root(4) extra(1) component_split[of extra n "stack t"] by auto
    have dist: "distinct (stack t2)" using adv unfolding advances_def stacked_def by blast
    have "set cycleNodes \<union> set rest = set (stack t2)" using extra(1) comp by auto
    moreover have "J (dom (visited t2)) (set (stack t2)) s2" using adv unfolding advances_def by blast
    ultimately have "J (dom (visited t2)) (set cycleNodes \<union> set rest) s2" by simp
    moreover have "distinct cycleNodes" "set cycleNodes \<inter> set rest = {}"
      using dist extra(1) comp by auto
    moreover have "list_all Q (forwardsOf n t2)"
      using adv list_all_forwardsOf unfolding advances_def by blast
    ultimately have fin: "J (dom (visited t2)) (set rest) s'" "Q x"
      using post root(5) by fastforce+
    obtain st2 where st2: "visited t2 n = Some st2" "nodeIndex st2 = counter t"
      using adv entered unfolding advances_def extends_def by fastforce
    have ext2: "extends (enter n t) t2" using adv unfolding advances_def by blast
    have keep: "\<forall>c st. visited t c = Some st \<longrightarrow> (\<exists>st'. visited t' c = Some st' \<and> nodeIndex st' = nodeIndex st)"
    proof (intro allI impI)
      fix c st assume "visited t c = Some st"
      then obtain st1 where "visited t2 c = Some st1" "nodeIndex st1 = nodeIndex st"
        using extends_trans[OF ext ext2] unfolding extends_def by blast
      then show "\<exists>st'. visited t' c = Some st' \<and> nodeIndex st' = nodeIndex st"
        by (auto simp: root(7) visited_finish)
    qed
    have "extends t t'"
      unfolding extends_def using keep comp by (auto simp: root(7) intro: exI[of _ "[]"])
    moreover have "indexed t'" "resultsSatisfy Q t'"
      using adv fin(2) unfolding advances_def root(7)
      by (simp_all add: indexed_finish resultsSatisfy_finish)
    moreover have "stacked t'"
    proof -
      have "set (stack t) \<subseteq> dom (visited t')" using Suc.prems(4) keep unfolding stacked_def by blast
      then show ?thesis using Suc.prems(4) comp unfolding stacked_def by (simp add: root(7))
    qed
    moreover have "J (dom (visited t')) (set (stack t')) s'" using fin(1) by (simp add: root(7))
    moreover have "settled n t t'"
      unfolding settled_def using st2 comp by (auto simp: root(7) visited_finish)
    ultimately show ?thesis using root(6) unfolding advances_def visitEnds_def by simp
  qed
qed

lemma traverseDepthFirst_rule:
  assumes pre: "\<forall>D S n s r s1. J D S s \<longrightarrow> A n \<longrightarrow> n \<notin> D \<longrightarrow> visitPre n s = (r, s1) \<longrightarrow>
         (case r of Inr cs \<Rightarrow> J (insert n D) (insert n S) s1 \<and> list_all A cs | Inl e \<Rightarrow> E s1)"
      and post: "\<forall>D S ns frs s r s1 rest. J D (set ns \<union> S) s \<longrightarrow> distinct ns \<longrightarrow> set ns \<inter> S = {} \<longrightarrow>
         set rest = S \<longrightarrow> list_all Q frs \<longrightarrow> visitPost ns frs s = (r, s1) \<longrightarrow>
         (case r of Inr x \<Rightarrow> J D S s1 \<and> Q x | Inl e \<Rightarrow> E (onCancel rest s1))"
      and run: "traverseDepthFirst fuel root visitPre visitPost onCancel s = Some (r, s')"
      and J: "J {} {} s" and A: "A root"
  shows "case r of Inr x \<Rightarrow> (\<exists>D. root \<in> D \<and> J D {} s') \<and> Q x | Inl e \<Rightarrow> E s'"
proof -
  obtain r0 t' where v: "visitNode fuel visitPre visitPost onCancel root emptyTraversal s = Some (r0, t', s')"
    using run by (auto simp: traverseDepthFirst_def split: option.splits prod.splits)
  have e: "visited emptyTraversal root = None" "indexed (emptyTraversal :: 'b Traversal)"
      "stacked (emptyTraversal :: 'b Traversal)" "resultsSatisfy Q emptyTraversal"
      "J (dom (visited (emptyTraversal :: 'b Traversal))) (set (stack (emptyTraversal :: 'b Traversal))) s"
    using J by (simp_all add: emptyTraversal_def indexed_def stacked_def resultsSatisfy_def)
  have ends: "visitEnds Q J E emptyTraversal r0 t' s'" "r0 = None \<longrightarrow> settled root emptyTraversal t'"
    using visitNode_rule[where Q = Q and J = J and A = A and E = E, OF pre post v e A] by blast+
  show ?thesis
  proof (cases r0)
    case (Some e0)
    then have "r = Inl e0" using run v by (simp add: traverseDepthFirst_def)
    then show ?thesis using ends(1) Some by (simp add: visitEnds_def)
  next
    case None
    then have a: "advances Q J emptyTraversal t' s'" "settled root emptyTraversal t'"
      using ends by (simp_all add: visitEnds_def)
    then obtain st' where st': "visited t' root = Some st'" "nodeIndex st' = 0"
        "stack t' = [] \<and> nodeResult st' \<noteq> None \<or> ancestorIndex st' < nodeIndex st'"
      unfolding settled_def by (auto simp: emptyTraversal_def)
    then obtain x where x: "stack t' = []" "nodeResult st' = Some x" by auto
    then have rx: "r = Inr x" using run v None st'(1) by (simp add: traverseDepthFirst_def)
    have jd: "J (dom (visited t')) {} s'" using a(1) x(1) unfolding advances_def by simp
    have rd: "root \<in> dom (visited t')" using st'(1) by auto
    have ex: "\<exists>D. root \<in> D \<and> J D {} s'"
      by (rule exI[of _ "dom (visited t')"]) (simp add: jd rd)
    have qx: "Q x" using a(1) st'(1) x(2) unfolding advances_def resultsSatisfy_def by blast
    show ?thesis using rx ex qx by simp
  qed
qed

lemma visitChildren_returns:
  assumes fin: "finite U"
      and node: "\<And>c t s. c \<in> U \<Longrightarrow> visited t c = None \<Longrightarrow> I s \<Longrightarrow> card (U - dom (visited t)) \<le> fuel \<Longrightarrow>
        \<exists>t' s'. visitNode fuel visitPre visitPost onCancel c t s = Some (None, t', s') \<and> I s' \<and>
          dom (visited t) \<subseteq> dom (visited t') \<and> c \<in> dom (visited t')"
  shows "set cs \<subseteq> U \<Longrightarrow> I s \<Longrightarrow> card (U - dom (visited t)) \<le> fuel \<Longrightarrow>
     \<exists>t' s'. visitChildren fuel visitPre visitPost onCancel n cs t s = Some (None, t', s') \<and> I s' \<and>
       dom (visited t) \<subseteq> dom (visited t')"
proof (induction cs arbitrary: t s)
  case Nil
  then show ?case by simp
next
  case (Cons c cs)
  show ?case
  proof (cases "visited t c")
    case (Some child)
    have "\<exists>t' s'. visitChildren fuel visitPre visitPost onCancel n cs (absorb False n child t) s
          = Some (None, t', s') \<and> I s' \<and> dom (visited (absorb False n child t)) \<subseteq> dom (visited t')"
      using Cons.IH[of s "absorb False n child t"] Cons.prems by simp
    then show ?thesis using Some by simp
  next
    case None
    obtain t1 s1 where v: "visitNode fuel visitPre visitPost onCancel c t s = Some (None, t1, s1)"
        "I s1" "dom (visited t) \<subseteq> dom (visited t1)" "c \<in> dom (visited t1)"
      using node[OF _ None Cons.prems(2,3)] Cons.prems(1) by auto
    then obtain child where child: "visited t1 c = Some child" by auto
    have "card (U - dom (visited t1)) \<le> card (U - dom (visited t))"
      using v(3) fin by (intro card_mono) auto
    then have "\<exists>t' s'. visitChildren fuel visitPre visitPost onCancel n cs (absorb True n child t1) s1
          = Some (None, t', s') \<and> I s' \<and> dom (visited (absorb True n child t1)) \<subseteq> dom (visited t')"
      using Cons.IH[of s1 "absorb True n child t1"] Cons.prems v(2) by simp
    then show ?thesis using None v(1,3) child by auto
  qed
qed

lemma visitNode_returns:
  assumes fin: "finite U"
      and pre: "\<And>n s. I s \<Longrightarrow> n \<in> U \<Longrightarrow> \<exists>cs s1. visitPre n s = (Inr cs, s1) \<and> set cs \<subseteq> U \<and> I s1"
      and post: "\<And>ns frs s. I s \<Longrightarrow> \<exists>x s1. visitPost ns frs s = (Inr x, s1) \<and> I s1"
  shows "n \<in> U \<Longrightarrow> visited t n = None \<Longrightarrow> I s \<Longrightarrow> card (U - dom (visited t)) \<le> fuel \<Longrightarrow>
     \<exists>t' s'. visitNode fuel visitPre visitPost onCancel n t s = Some (None, t', s') \<and> I s' \<and>
       dom (visited t) \<subseteq> dom (visited t') \<and> n \<in> dom (visited t')"
proof (induction fuel arbitrary: n t s)
  case 0
  have "n \<in> U - dom (visited t)" using "0.prems"(1,2) by auto
  then have "card (U - dom (visited t)) > 0" using fin by (metis card_gt_0_iff finite_Diff empty_iff)
  then show ?case using "0.prems"(4) by simp
next
  case (Suc fuel)
  obtain cs s1 where p: "visitPre n s = (Inr cs, s1)" "set cs \<subseteq> U" "I s1"
    using pre[OF Suc.prems(3,1)] by blast
  have "n \<in> U - dom (visited t)" using Suc.prems(1,2) by auto
  moreover have "U - dom (visited (enter n t)) = (U - dom (visited t)) - {n}" by auto
  ultimately have "card (U - dom (visited (enter n t))) \<le> fuel"
    using Suc.prems(4) fin by (simp add: card_Diff_singleton_if)
  then obtain t2 s2 where c: "visitChildren fuel visitPre visitPost onCancel n cs (enter n t) s1
        = Some (None, t2, s2)" "I s2" "dom (visited (enter n t)) \<subseteq> dom (visited t2)"
  proof -
    have "\<exists>t' s'. visitChildren fuel visitPre visitPost onCancel n cs (enter n t) s1 = Some (None, t', s')
        \<and> I s' \<and> dom (visited (enter n t)) \<subseteq> dom (visited t')"
    proof (rule visitChildren_returns[where I = I and U = U, OF fin _ p(2,3)])
      show "\<exists>t' s'. visitNode fuel visitPre visitPost onCancel c t s = Some (None, t', s') \<and> I s' \<and>
          dom (visited t) \<subseteq> dom (visited t') \<and> c \<in> dom (visited t')"
        if "c \<in> U" "visited t c = None" "I s" "card (U - dom (visited t)) \<le> fuel" for c t s
        using Suc.IH[OF that] .
    qed fact
    then show ?thesis using that by blast
  qed
  obtain cycleNodes rest where comp: "component n (stack t2) = (cycleNodes, rest)"
    by (cases "component n (stack t2)")
  obtain x s3 where q: "visitPost cycleNodes (forwardsOf n t2) s2 = (Inr x, s3)" "I s3"
    using post[OF c(2)] by blast
  have sub: "dom (visited t) \<subseteq> dom (visited t2)" "n \<in> dom (visited t2)" using c(3) by auto
  show ?case
  proof (cases "isComponentRoot n t2")
    case True
    then have "visitNode (Suc fuel) visitPre visitPost onCancel n t s
        = Some (None, finish n cycleNodes x (t2\<lparr> stack := rest \<rparr>), s3)"
      using p(1) c(1) comp q(1) by simp
    then show ?thesis using q(2) sub by (simp del: visitNode.simps)
  next
    case False
    then have "visitNode (Suc fuel) visitPre visitPost onCancel n t s = Some (None, t2, s2)"
      using p(1) c(1) by simp
    then show ?thesis using c(2) sub by (simp del: visitNode.simps)
  qed
qed

lemma traverseDepthFirst_returns:
  assumes fin: "finite U"
      and pre: "\<And>n s. I s \<Longrightarrow> n \<in> U \<Longrightarrow> \<exists>cs s1. visitPre n s = (Inr cs, s1) \<and> set cs \<subseteq> U \<and> I s1"
      and post: "\<And>ns frs s. I s \<Longrightarrow> \<exists>x s1. visitPost ns frs s = (Inr x, s1) \<and> I s1"
      and root: "root \<in> U" and I: "I s" and fuel: "card U \<le> fuel"
  shows "\<exists>r s'. traverseDepthFirst fuel root visitPre visitPost onCancel s = Some (Inr r, s')"
proof -
  have "card (U - dom (visited (emptyTraversal :: 'b Traversal))) \<le> fuel"
    using fuel by (simp add: emptyTraversal_def)
  moreover have "visited (emptyTraversal :: 'b Traversal) root = None" by (simp add: emptyTraversal_def)
  ultimately have "\<exists>t' s'. visitNode fuel visitPre visitPost onCancel root (emptyTraversal :: 'b Traversal) s
      = Some (None, t', s') \<and> I s' \<and> dom (visited (emptyTraversal :: 'b Traversal)) \<subseteq> dom (visited t')
      \<and> root \<in> dom (visited t')"
    using root I by (intro visitNode_returns[where I = I and U = U, OF fin pre post]) auto
  then obtain t' s' where
    v: "visitNode fuel visitPre visitPost onCancel root (emptyTraversal :: 'b Traversal) s = Some (None, t', s')"
    by blast
  have "settled root emptyTraversal t'"
    using visitNode_rule[where Q = "\<lambda>_. True" and J = "\<lambda>_ _ _. True" and A = "\<lambda>_. True"
        and E = "\<lambda>_. True", OF _ _ v]
    by (simp add: emptyTraversal_def indexed_def stacked_def resultsSatisfy_def list_all_iff
        split: sum.splits)
  then obtain st' where "visited t' root = Some st'" "nodeResult st' \<noteq> None"
    unfolding settled_def by (auto simp: emptyTraversal_def)
  then show ?thesis using v by (auto simp: traverseDepthFirst_def)
qed


section \<open>Properties of the store\<close>

lemma controllers_setController [simp]:
  "controllers (setController c f w) = (controllers w)(c := f (controllers w c))"
  by (simp add: setController_def)

lemma rest_setController [simp]:
  "instances (setController c f w) = instances w"
  "trace (setController c f w) = trace w"
  "nextId (setController c f w) = nextId w"
  "evicted (setController c f w) = evicted w"
  "evictModule (setController c f w) = evictModule w"
  "resolution (setController c f w) = resolution w"
  by (simp_all add: setController_def)

lemma instances_setInstance [simp]:
  "instances (setInstance i f w) = (instances w)(i := f (instances w i))"
  by (simp add: setInstance_def)

lemma rest_setInstance [simp]:
  "controllers (setInstance i f w) = controllers w"
  "trace (setInstance i f w) = trace w"
  "nextId (setInstance i f w) = nextId w"
  "evicted (setInstance i f w) = evicted w"
  "evictModule (setInstance i f w) = evictModule w"
  "resolution (setInstance i f w) = resolution w"
  by (simp_all add: setInstance_def)

lemma allocate_simps [simp]:
  "fst (allocate inst w) = nextId w"
  "controllers (snd (allocate inst w)) = controllers w"
  "instances (snd (allocate inst w)) = (instances w)(nextId w := inst)"
  "trace (snd (allocate inst w)) = trace w"
  "nextId (snd (allocate inst w)) = Suc (nextId w)"
  "evicted (snd (allocate inst w)) = evicted w"
  "evictModule (snd (allocate inst w)) = evictModule w"
  "resolution (snd (allocate inst w)) = resolution w"
  by (simp_all add: allocate_def)


lemma instantiate_simps [simp]:
  "controllers (instantiate d i w) = controllers w"
  "instances (instantiate d i w) = (instances w)(i := (instances w i)\<lparr> instantiated := True, disposeData := d \<rparr>)"
  "trace (instantiate d i w) = trace w"
  "nextId (instantiate d i w) = nextId w"
  "resolution (instantiate d i w) = resolution w"
  by (simp_all add: instantiate_def)

lemma link_Inr:
  "link sel i w = Inr w1 \<Longrightarrow>
     w1 = setInstance i (\<lambda>inst. if status inst = New then inst\<lparr> status := Linked \<rparr> else inst) w"
  by (simp add: link_def split: option.splits)

lemma link_frame:
  assumes "link sel i w = Inr w1"
  shows "controllers w1 = controllers w" "trace w1 = trace w" "nextId w1 = nextId w"
    "resolution w1 = resolution w"
    "instances w1 = (instances w)(i := (if status (instances w i) = New
        then (instances w i)\<lparr> status := Linked \<rparr> else instances w i))"
  using link_Inr[OF assms] by simp_all

lemma unlink_simps [simp]:
  "controllers (snd (unlink i w)) = controllers w"
  "trace (snd (unlink i w)) = trace w"
  "nextId (snd (unlink i w)) = nextId w"
  "resolution (snd (unlink i w)) = resolution w"
  "instances (snd (unlink i w)) = (instances w)(i := (if status (instances w i) = Evaluated
      then instances w i else (instances w i)\<lparr> status := New \<rparr>))"
  by (simp_all add: unlink_def)

lemma clone_simps [simp]:
  "fst (clone i w) = nextId w"
  "controllers (snd (clone i w)) = controllers w"
  "trace (snd (clone i w)) = trace w"
  "nextId (snd (clone i w)) = Suc (nextId w)"
  "resolution (snd (clone i w)) = resolution w"
  "instances (snd (clone i w)) = (instances w)(nextId w := newInstance (moduleDeclaration (instances w i)))"
  by (simp_all add: clone_def)

lemma evaluate_simps [simp]:
  "controllers (snd (evaluate i w)) = controllers w"
  "trace (snd (evaluate i w)) = trace w @ [Evaluate i]"
  "nextId (snd (evaluate i w)) = nextId w"
  by (simp_all add: evaluate_def Let_def)

lemma tryAccept_simps [simp]:
  "controllers (snd (tryAccept i ds w)) = controllers w"
  "instances (snd (tryAccept i ds w)) = instances w"
  "trace (snd (tryAccept i ds w)) = trace w @ [TryAccept i ds]"
  by (simp_all add: tryAccept_def)

lemma tryAcceptSelf_simps [simp]:
  "controllers (snd (tryAcceptSelf i j w)) = controllers w"
  "instances (snd (tryAcceptSelf i j w)) = instances w"
  "trace (snd (tryAcceptSelf i j w)) = trace w @ [TryAcceptSelf i j]"
  by (simp_all add: tryAcceptSelf_def)

lemma dispose_simps [simp]:
  "controllers (snd (dispose i w)) = controllers w"
  "instances (snd (dispose i w)) = instances w"
  "trace (snd (dispose i w)) = trace w @ [Dispose i]"
  "fst (dispose i w) = onDispose (hot (instances w i))"
  by (simp_all add: dispose_def)

lemma prune_simps [simp]:
  "controllers (snd (prune i w)) = controllers w"
  "instances (snd (prune i w)) = instances w"
  "trace (snd (prune i w)) = trace w @ [Prune i]"
  "nextId (snd (prune i w)) = nextId w"
  "fst (prune i w) = onPrune (hot (instances w i))"
  by (simp_all add: prune_def)

lemma select_simps:
  "select sel n w = Inr i \<longleftrightarrow> sel (controllers w n) = Some i"
  "select sel n w = Inl e \<longleftrightarrow> sel (controllers w n) = None \<and> e = AssertionError"
  by (auto simp: select_def split: option.splits)

section \<open>The sticky fatal error\<close>

text \<open>No step of \<open>dispatch\<close> or of the three traversals writes a \<open>fatalError\<close> field.\<close>

lemma fatals_setController [simp]:
  "fatalError (f (controllers w n)) = fatalError (controllers w n) \<Longrightarrow>
     fatals (setController n f w) = fatals w"
  by (auto simp: fatals_def)

lemma fatals_primitives [simp]:
  "fatals (setInstance i g w) = fatals w"
  "fatals (instantiate d i w) = fatals w"
  "fatals (snd (unlink i w)) = fatals w"
  "fatals (snd (clone i w)) = fatals w"
  "fatals (snd (evaluate i w)) = fatals w"
  "fatals (snd (tryAccept i ds w)) = fatals w"
  "fatals (snd (tryAcceptSelf i j w)) = fatals w"
  "fatals (snd (dispose i w)) = fatals w"
  "fatals (snd (prune i w)) = fatals w"
  by (simp_all add: fatals_def)

lemma fatals_link: "link sel i w = Inr w1 \<Longrightarrow> fatals w1 = fatals w"
  by (simp add: fatals_def link_frame)

lemma fatals_relink: "relink i w = Inr w1 \<Longrightarrow> fatals w1 = fatals w"
  unfolding relink_def by (rule fatals_link)

lemma fatals_iterateWithRollback:
  assumes step: "\<And>n s. F (snd (step n s)) = F s"
      and undo: "\<And>ns s. F (snd (rollback' ns s)) = F s"
  shows "F (snd (iterateWithRollback step rollback' dn ns s)) = F s"
proof (induction ns arbitrary: dn s)
  case Nil
  then show ?case by simp
next
  case (Cons n ns)
  obtain r s1 where s1: "step n s = (r, s1)" by (cases "step n s")
  have f1: "F s1 = F s" using step[of n s] s1 by simp
  show ?case
  proof (cases r)
    case None
    then show ?thesis using Cons.IH[of "dn @ [n]" s1] s1 f1 by simp
  next
    case (Some e)
    obtain r2 s2 where s2: "rollback' (dn @ [n]) s1 = (r2, s2)" by (cases "rollback' (dn @ [n]) s1")
    have "F s2 = F s1" using undo[of "dn @ [n]" s1] s2 by simp
    then show ?thesis using s1 s2 Some f1 by (cases r2) simp_all
  qed
qed

lemma fatals_forgetUnlinked: "fatals (snd (forgetUnlinked ns w)) = fatals w"
proof (induction ns arbitrary: w)
  case Nil
  then show ?case by simp
next
  case (Cons n ns)
  show ?case
  proof (cases "select selectCurrent n w")
    case (Inl e)
    then show ?thesis by simp
  next
    case (Inr i)
    obtain b w1 where u: "unlink i w = (b, w1)" by (cases "unlink i w")
    have "fatals w1 = fatals w" using fatals_primitives(3)[of i w] u by simp
    then show ?thesis using Inr u Cons.IH by (cases b) simp_all
  qed
qed

lemma fatals_dispatchInstantiate: "fatals (snd (dispatchInstantiate n w)) = fatals w"
  by (simp add: dispatchInstantiate_def Let_def split: sum.splits)

lemma fatals_dispatchLinkStep: "fatals (snd (dispatchLinkStep n w)) = fatals w"
  by (auto simp: dispatchLinkStep_def fatals_link split: sum.splits)

lemma fatals_dispatchLink: "fatals (snd (dispatchLink ns frs w)) = fatals w"
proof -
  have "fatals (snd (iterateWithRollback dispatchLinkStep forgetUnlinked [] ns w)) = fatals w"
    by (rule fatals_iterateWithRollback) (simp_all add: fatals_dispatchLinkStep fatals_forgetUnlinked)
  then show ?thesis by (auto simp: dispatchLink_def split: prod.splits option.splits)
qed

lemma fatals_dispatchEvaluate: "fatals (snd (dispatchEvaluate ns frs w)) = fatals w"
proof (induction ns arbitrary: w)
  case Nil
  then show ?case by simp
next
  case (Cons n ns)
  show ?case
  proof (cases "select selectCurrent n w")
    case (Inl e)
    then show ?thesis by simp
  next
    case (Inr i)
    define w1 where "w1 = (if Some i = staging (controllers w n)
        then setController n (\<lambda>c. c\<lparr> staging := None \<rparr>) w else w)"
    have f1: "fatals w1 = fatals w" by (simp add: w1_def)
    obtain r w2 where e: "evaluate i w1 = (r, w2)" by (cases "evaluate i w1")
    have "fatals w2 = fatals w1" using fatals_primitives(5)[of i w1] e by simp
    then show ?thesis using Inr e f1 Cons.IH[of w2] by (cases r) (simp_all add: w1_def Let_def)
  qed
qed

lemma dispatch_keeps_fatals:
  assumes "dispatch fuel this w = Some (r, w')"
  shows "fatals w' = fatals w"
proof (cases "current (controllers w this) = None")
  case False
  then show ?thesis using assms by (auto simp: dispatch_def)
next
  case True
  obtain r1 w1 where t1: "traverseDepthFirst fuel this dispatchInstantiate dispatchLink dispatchCancel w = Some (r1, w1)"
    using assms True by (auto simp: dispatch_def split: option.splits)
  have f1: "fatals w1 = fatals w"
    by (rule traverseDepthFirst_preserves[where P = "\<lambda>v. fatals v = fatals w", OF _ _ _ t1])
      (simp_all add: fatals_dispatchInstantiate fatals_dispatchLink dispatchCancel_def fatals_forgetUnlinked)
  show ?thesis
  proof (cases r1)
    case (Inl e)
    then show ?thesis using assms True t1 f1 by (simp add: dispatch_def)
  next
    case (Inr u)
    then have t2: "traverseDepthFirst fuel this (\<lambda>node w. (iterate selectCurrent node w, w))
        dispatchEvaluate noCancel w1 = Some (r, w')"
      using assms True t1 by (simp add: dispatch_def)
    show ?thesis
      by (rule traverseDepthFirst_preserves[where P = "\<lambda>v. fatals v = fatals w", OF _ _ _ t2 f1])
        (simp_all add: fatals_dispatchEvaluate noCancel_def)
  qed
qed

text \<open>The paths on which \<open>requestUpdate\<close> returns the result \<open>fatalError\<close>.\<close>

lemma traverseEdges_preserves:
  assumes node: "\<forall>c seen w r seen' w'. traverseNode fuel onYield c seen w = Some (r, seen', w')
       \<longrightarrow> P w \<longrightarrow> P w'"
      and yield: "\<forall>c w w1. onYield c w = Inr w1 \<longrightarrow> P w \<longrightarrow> P w1"
  shows "traverseEdges fuel onYield cs seen w = Some (r, seen', w') \<Longrightarrow> P w \<Longrightarrow> P w'"
proof (induction cs arbitrary: seen w)
  case Nil
  then show ?case by simp
next
  case (Cons c cs)
  show ?case
  proof (cases "c \<in> set seen")
    case True
    then show ?thesis using Cons by simp
  next
    case False
    show ?thesis
    proof (cases "onYield c w")
      case (Inl e)
      then show ?thesis using Cons.prems False by simp
    next
      case (Inr w1)
      have P1: "P w1" using yield Inr Cons.prems(2) by blast
      show ?thesis
      proof (cases "traverseNode fuel onYield c (seen @ [c]) w1")
        case None
        then show ?thesis using Cons.prems False Inr by simp
      next
        case (Some res)
        obtain r1 seen1 w2 where res: "res = (r1, seen1, w2)" by (cases res)
        have P2: "P w2" using node Some[unfolded res] P1 by blast
        show ?thesis
        proof (cases r1)
          case None
          then show ?thesis using Cons.prems(1) False Inr Some res Cons.IH[OF _ P2] by simp
        next
          case (Some e)
          then show ?thesis using Cons.prems(1) False Inr \<open>traverseNode fuel onYield c (seen @ [c]) w1 = Some res\<close> res P2 by simp
        qed
      qed
    qed
  qed
qed

lemma traverseNode_preserves:
  assumes yield: "\<forall>c w w1. onYield c w = Inr w1 \<longrightarrow> P w \<longrightarrow> P w1"
  shows "traverseNode fuel onYield node seen w = Some (r, seen', w') \<Longrightarrow> P w \<Longrightarrow> P w'"
proof (induction fuel arbitrary: node seen w r seen' w')
  case 0
  then show ?case by simp
next
  case (Suc fuel)
  show ?case
  proof (cases "iterateWithDynamics selectCurrent selectCurrent node w")
    case (Inl e)
    then show ?thesis using Suc.prems by simp
  next
    case (Inr children)
    then have "traverseEdges fuel onYield children seen w = Some (r, seen', w')"
      using Suc.prems(1) by simp
    moreover have "\<forall>c seen w r seen' w'. traverseNode fuel onYield c seen w = Some (r, seen', w')
        \<longrightarrow> P w \<longrightarrow> P w'"
      using Suc.IH by blast
    ultimately show ?thesis
      using traverseEdges_preserves[where P = P, OF _ yield _ Suc.prems(2)] by blast
  qed
qed

lemma traverse_preserves:
  assumes "\<forall>c w w1. onYield c w = Inr w1 \<longrightarrow> P w \<longrightarrow> P w1"
    and "traverse fuel onYield this w = Some (r, seen', w')" and "P w"
  shows "P w'"
  using traverseNode_preserves[where P = P, OF assms(1)] assms(2,3) unfolding traverse_def by blast

lemma pruneOrphans_result:
  "pruneOrphans this cur prev w = (Some out, w') \<Longrightarrow>
     (\<exists>e. out = Thrown e) \<or> (\<exists>e. out = Returned (UpdateFatalError e) \<and> fatalError (controllers w' this) = Some e)"
proof (induction prev arbitrary: w)
  case Nil
  then show ?case by simp
next
  case (Cons c prev)
  show ?case
  proof (cases "c \<in> set cur")
    case True
    then show ?thesis using Cons by simp
  next
    case False
    show ?thesis
    proof (cases "current (controllers w c)")
      case None
      then show ?thesis using Cons.prems False by (auto simp: select_def selectCurrent_def)
    next
      case (Some i)
      show ?thesis
      proof (cases "onPrune (hot (instances w i))")
        case None
        then show ?thesis
          using Cons.prems False Some Cons.IH
          by (auto simp: select_def selectCurrent_def split_beta)
      next
        case (Some e)
        then show ?thesis
          using Cons.prems False \<open>current (controllers w c) = Some i\<close>
          by (auto simp: select_def selectCurrent_def split_beta)
      qed
    qed
  qed
qed

lemma pruneOrphans_keeps_fatalError:
  "pruneOrphans this cur prev w = (None, w') \<Longrightarrow>
     fatalError (controllers w' c) = fatalError (controllers w c)"
proof (induction prev arbitrary: w)
  case Nil
  then show ?case by simp
next
  case (Cons a prev)
  show ?case
  proof (cases "a \<in> set cur")
    case True
    then show ?thesis using Cons by simp
  next
    case False
    then show ?thesis
      using Cons.prems Cons.IH
      by (auto simp: select_def selectCurrent_def split_beta split: option.splits if_splits)
  qed
qed

lemma clearPrevious_keeps_fatalError:
  "clearPrevious node w = Inr w1 \<Longrightarrow> fatalError (controllers w1 c) = x \<longleftrightarrow> fatalError (controllers w c) = x"
  by (auto simp: clearPrevious_def split: if_splits)

lemma finalize_fatal:
  assumes "finalize fuel this prev out w = Some (Returned (UpdateFatalError e), w')"
    and "out = Returned (UpdateFatalError e) \<Longrightarrow> fatalError (controllers w this) = Some e"
  shows "fatalError (controllers w' this) = Some e"
proof -
  obtain cur w1 where t: "traverse fuel clearPrevious this w = Some (None, cur, w1)"
    using assms(1) by (auto simp: finalize_def split: option.splits prod.splits)
  have f1: "fatalError (controllers w1 this) = fatalError (controllers w this)"
    using traverse_preserves[where P = "\<lambda>v. fatalError (controllers v this) = fatalError (controllers w this)", OF _ t]
      clearPrevious_keeps_fatalError by blast
  obtain res w2 where p: "pruneOrphans this cur prev w1 = (res, w2)" by (cases "pruneOrphans this cur prev w1")
  show ?thesis
  proof (cases res)
    case None
    then have "out = Returned (UpdateFatalError e)" "w' = w2"
      using assms(1) t p by (auto simp: finalize_def)
    then show ?thesis using pruneOrphans_keeps_fatalError[OF p[unfolded None]] f1 assms(2) by simp
  next
    case (Some out')
    then have "out' = Returned (UpdateFatalError e)" "w' = w2"
      using assms(1) t p by (auto simp: finalize_def)
    then show ?thesis using pruneOrphans_result[OF p[unfolded Some]] by auto
  qed
qed

lemma recover_fatal:
  "recover fuel this e0 s = Some (Returned (UpdateFatalError e), w') \<Longrightarrow>
     fatalError (controllers w' this) = Some e"
  by (auto simp: recover_def split: prod.splits option.splits sum.splits if_splits)

lemma commit_fatal:
  assumes "commit fuel this w = Some (Returned (UpdateFatalError e), w')"
  shows "fatalError (controllers w' this) = Some e"
proof -
  obtain prev w1 where t: "traverse fuel (\<lambda>node w. Inr w) this w = Some (None, prev, w1)"
    using assms by (auto simp: commit_def split: option.splits prod.splits)
  obtain res s2 where c: "commitTraversal fuel this w1 = Some (res, s2)"
    using assms t by (auto simp: commit_def split: option.splits prod.splits)
  show ?thesis
  proof (cases res)
    case (Inr result)
    obtain w2 stats fatal where s2: "s2 = (w2, stats, fatal)" by (cases s2)
    have "finalize fuel this prev (if \<not> treeDidUpdate result then Returned Undefined
        else Returned (UpdateSuccess stats)) w2 = Some (Returned (UpdateFatalError e), w')"
      using assms t c Inr s2 by (simp add: commit_def)
    then show ?thesis by (rule finalize_fatal) (simp split: if_splits)
  next
    case (Inl e0)
    obtain out w3 where r: "recover fuel this e0 s2 = Some (out, w3)"
      using assms t c Inl by (auto simp: commit_def split: option.splits prod.splits)
    then have fin: "finalize fuel this prev out w3 = Some (Returned (UpdateFatalError e), w')"
      using assms t c Inl by (simp add: commit_def)
    have "fatalError (controllers w3 this) = Some e" if "out = Returned (UpdateFatalError e)"
      using recover_fatal r that by blast
    then show ?thesis using finalize_fatal[OF fin] by blast
  qed
qed

lemma linkTest_result:
  "linkTest fuel this nextControllers w = Some (Some out, w') \<Longrightarrow>
     (\<exists>e. out = Thrown e) \<or> (\<exists>e. out = Returned (UpdateLinkError e))"
  by (auto simp: linkTest_def split: option.splits prod.splits sum.splits)

lemma requestUpdate_fatal:
  assumes "requestUpdate fuel this w = Some (Returned (UpdateFatalError e), w')"
  shows "fatalError (controllers w' this) = Some e"
proof (cases "fatalError (controllers w this)")
  case (Some e')
  then show ?thesis using assms by (simp add: requestUpdate_def)
next
  case None
  obtain res w1 nextControllers where d: "dryRun fuel this w = Some (res, w1, nextControllers)"
    using assms None by (auto simp: requestUpdate_def split: option.splits prod.splits)
  show ?thesis
  proof (cases res)
    case (Inl e0)
    then show ?thesis using assms None d by (simp add: requestUpdate_def)
  next
    case (Inr initialResult)
    have go: "\<not> \<not> needsDispatch initialResult" "\<not> hasDecline initialResult" "\<not> invalidated initialResult \<noteq> []"
      using assms None d Inr by (auto simp: requestUpdate_def split: if_splits prod.splits sum.splits)
    obtain res2 w2 where l: "(if hasNewCode initialResult then linkTest fuel this nextControllers w1
        else Some (None, w1)) = Some (res2, w2)"
      using assms None d Inr go by (auto simp: requestUpdate_def split: option.splits prod.splits)
    show ?thesis
    proof (cases res2)
      case None
      then have "commit fuel this w2 = Some (Returned (UpdateFatalError e), w')"
        using assms \<open>fatalError (controllers w this) = None\<close> d Inr go l by (simp add: requestUpdate_def)
      then show ?thesis by (rule commit_fatal)
    next
      case (Some out)
      then have "out = Returned (UpdateFatalError e)"
        using assms \<open>fatalError (controllers w this) = None\<close> d Inr go l by (simp add: requestUpdate_def)
      moreover have "linkTest fuel this nextControllers w1 = Some (Some out, w2)"
        using l Some by (auto split: if_splits)
      ultimately show ?thesis using linkTest_result by blast
    qed
  qed
qed

text \<open>The three traversals of \<open>requestUpdate\<close> write no \<open>fatalError\<close> field either; the
  \<open>catch\<close> block and the \<open>finally\<close> block write the one of the controller the update was
  requested on.\<close>

lemma fatals_clearUpdate: "fatals (clearUpdate ns w) = fatals w"
  unfolding clearUpdate_def by (induction ns arbitrary: w) simp_all

lemma fatals_dryRunPre: "fatals (fst (snd (dryRunPre n s))) = fatals (fst s)"
  by (cases s) (simp add: dryRunPre_def Let_def select_def split: option.splits sum.splits)

lemma world_dryRunPost: "fst (snd (dryRunPost ns frs s)) = fst s"
  by (cases s) (simp add: dryRunPost_def Let_def split_beta)

lemma dryRun_keeps_fatals:
  assumes "dryRun fuel this w = Some (r, w1, next')"
  shows "fatals w1 = fatals w"
proof -
  have "fatals (fst (w1, next')) = fatals w"
    by (rule traverseDepthFirst_preserves[where P = "\<lambda>s. fatals (fst s) = fatals w",
          OF _ _ _ assms[unfolded dryRun_def]])
      (simp_all add: fatals_dryRunPre world_dryRunPost dryRunCancel_def split_beta fatals_clearUpdate)
  then show ?thesis by simp
qed

lemma fatals_instantiateTemporaries:
  "fatals (fst (snd (instantiateTemporaries ns s))) = fatals (fst s)"
proof (induction ns arbitrary: s)
  case Nil
  then show ?case by simp
next
  case (Cons n ns)
  obtain w inst where s: "s = (w, inst)" by (cases s)
  show ?case
  proof (cases "select selectPending n w")
    case (Inl e)
    then show ?thesis using s by simp
  next
    case (Inr p)
    then show ?thesis using s Cons.IH by (simp add: split_beta)
  qed
qed

lemma fatals_linkTemporaries: "fatals (snd (linkTemporaries ns w)) = fatals w"
proof (induction ns arbitrary: w)
  case Nil
  then show ?case by simp
next
  case (Cons n ns)
  then show ?case by (auto simp: fatals_link split: sum.splits)
qed

lemma fatals_linkTestPost: "fatals (fst (snd (linkTestPost ns frs s))) = fatals (fst s)"
proof -
  obtain w inst where s: "s = (w, inst)" by (cases s)
  obtain r1 w1 inst1 where i: "instantiateTemporaries ns (w, inst) = (r1, w1, inst1)"
    by (cases "instantiateTemporaries ns (w, inst)") auto
  have f1: "fatals w1 = fatals w" using fatals_instantiateTemporaries[of ns "(w, inst)"] i by simp
  obtain r2 w2 where l: "linkTemporaries ns w1 = (r2, w2)" by (cases "linkTemporaries ns w1")
  have f2: "fatals w2 = fatals w1" using fatals_linkTemporaries[of ns w1] l by simp
  show ?thesis using s i l f1 f2
    by (auto simp: linkTestPost_def split: sum.splits option.splits)
qed

lemma fatals_discardTemporaries: "fatals (snd (discardTemporaries ns w)) = fatals w"
proof (induction ns arbitrary: w)
  case Nil
  then show ?case by simp
next
  case (Cons n ns)
  then show ?case by (auto split: sum.splits)
qed

lemma linkTest_keeps_fatals:
  assumes "linkTest fuel this nextControllers w = Some (r, w')"
  shows "fatals w' = fatals w"
proof -
  obtain r1 w1 inst where t: "linkTestTraversal fuel this w = Some (r1, w1, inst)"
    using assms by (auto simp: linkTest_def split: option.splits)
  have "fatals (fst (w1, inst)) = fatals w"
    by (rule traverseDepthFirst_preserves[where P = "\<lambda>s. fatals (fst s) = fatals w",
          OF _ _ _ t[unfolded linkTestTraversal_def]])
      (simp_all add: linkTestPre_def split_beta fatals_linkTestPost noCancel_def)
  then have f1: "fatals w1 = fatals w" by simp
  show ?thesis
  proof (cases r1)
    case (Inl e)
    obtain r2 w2 where d: "discardTemporaries inst (rollback nextControllers w1) = (r2, w2)"
      by (cases "discardTemporaries inst (rollback nextControllers w1)")
    have "fatals w2 = fatals w"
      using fatals_discardTemporaries[of inst "rollback nextControllers w1"] d f1
      by (simp add: rollback_def fatals_clearUpdate)
    then show ?thesis using assms t Inl d by (cases r2) (auto simp: linkTest_def)
  next
    case (Inr b)
    obtain r2 w2 where d: "discardTemporaries inst w1 = (r2, w2)"
      by (cases "discardTemporaries inst w1")
    have "fatals w2 = fatals w" using fatals_discardTemporaries[of inst w1] d f1 by simp
    then show ?thesis using assms t Inr d by (cases r2) (auto simp: linkTest_def)
  qed
qed

lemma fatals_relinkAndAccept: "fatals (snd (relinkAndAccept fu ns w)) = fatals w"
proof (induction ns arbitrary: w)
  case Nil
  then show ?case by simp
next
  case (Cons n ns)
  show ?case
  proof (cases "select selectCurrent n w")
    case (Inl e)
    then show ?thesis by simp
  next
    case cur: (Inr cur)
    show ?thesis
    proof (cases "relink cur w")
      case (Inl e)
      then show ?thesis using cur by simp
    next
      case w1: (Inr w1)
      have f1: "fatals w1 = fatals w" using fatals_relink w1 by blast
      show ?thesis
      proof (cases "select selectCurrent n w1")
        case (Inl e)
        then show ?thesis using cur w1 f1 by simp
      next
        case (Inr cur')
        obtain ok w2 where a: "tryAccept cur' fu w1 = (ok, w2)" by (cases "tryAccept cur' fu w1")
        have "fatals w2 = fatals w1" using fatals_primitives(6)[of cur' fu w1] a by simp
        then show ?thesis using cur w1 f1 Inr a Cons.IH[of w2] by (cases ok) simp_all
      qed
    qed
  qed
qed

lemma fatals_keepCurrent: "fatals (snd (keepCurrent ns w)) = fatals w"
  by (induction ns arbitrary: w) simp_all

lemma fatals_replaceInstances: "fatals (fst (snd (replaceInstances ns s))) = fatals (fst s)"
proof (induction ns arbitrary: s)
  case Nil
  then show ?case by simp
next
  case (Cons n ns)
  obtain w fatal where s: "s = (w, fatal)" by (cases s)
  show ?case
  proof (cases "select selectPending n w")
    case (Inl e)
    then show ?thesis using s by simp
  next
    case (Inr p)
    obtain r1 w1 where d: "(case current (controllers w n) of None \<Rightarrow> (Inr None, w)
        | Some cur \<Rightarrow> dispose cur w) = (r1, w1)"
      by (cases "case current (controllers w n) of None \<Rightarrow> (Inr None, w) | Some cur \<Rightarrow> dispose cur w")
    have f1: "fatals w1 = fatals w"
      using d fatals_primitives(8) by (cases "current (controllers w n)") (auto simp: dispose_def fatals_def)
    show ?thesis
    proof (cases r1)
      case (Inl e)
      then show ?thesis using s Inr d f1 by simp
    next
      case (Inr data)
      obtain i w2 where c: "(if current (controllers w1 n) = Some p then clone p w1 else (p, w1)) = (i, w2)"
        by (cases "if current (controllers w1 n) = Some p then clone p w1 else (p, w1)")
      have f2: "fatals w2 = fatals w1"
      proof (cases "current (controllers w1 n) = Some p")
        case True
        with c have "w2 = snd (clone p w1)" by simp
        then show ?thesis by simp
      next
        case False
        then show ?thesis using c by simp
      qed
      show ?thesis
        using s \<open>select selectPending n w = Inr p\<close> d Inr c f1 f2
          Cons.IH[of "(instantiate data i (setController n (\<lambda>c. c\<lparr> current := Some i \<rparr>) w2), fatal)"]
        by simp
    qed
  qed
qed

lemma fatals_linkCurrent: "fatals (snd (linkCurrent ns w)) = fatals w"
proof (induction ns arbitrary: w)
  case Nil
  then show ?case by simp
next
  case (Cons n ns)
  then show ?case by (auto simp: fatals_link split: sum.splits)
qed

lemma fatals_evaluateStep: "fatals (fst (snd (evaluateStep n s))) = fatals (fst s)"
proof -
  obtain w stats where s: "s = (w, stats)" by (cases s)
  show ?thesis
  proof (cases "select selectCurrent n w")
    case (Inl e)
    then show ?thesis using s by (simp add: evaluateStep_def)
  next
    case (Inr cur)
    obtain r w1 where e: "evaluate cur w = (r, w1)" by (cases "evaluate cur w")
    have "fatals w1 = fatals w" using fatals_primitives(5)[of cur w] e by simp
    then show ?thesis using s Inr e by (cases r) (simp_all add: evaluateStep_def Let_def)
  qed
qed

lemma fatals_evaluateRollback: "fatals (fst (snd (evaluateRollback ns s))) = fatals (fst s)"
proof (induction ns arbitrary: s)
  case Nil
  then show ?case by simp
next
  case (Cons n ns)
  obtain w stats where s: "s = (w, stats)" by (cases s)
  show ?case
  proof (cases "select selectCurrent n w")
    case (Inl e)
    then show ?thesis using s by simp
  next
    case (Inr cur)
    then show ?thesis using s Cons.IH by simp
  qed
qed

lemma fatals_trySelfAccepts: "fatals (snd (trySelfAccepts ns w)) = fatals w"
proof (induction ns arbitrary: w)
  case Nil
  then show ?case by simp
next
  case (Cons n ns)
  show ?case
  proof (cases "previous (controllers w n)")
    case None
    then show ?thesis using Cons.IH by simp
  next
    case (Some prev)
    show ?thesis
    proof (cases "select selectCurrent n w")
      case (Inl e)
      then show ?thesis using Some by simp
    next
      case (Inr cur)
      obtain ok w1 where a: "tryAcceptSelf prev cur w = (ok, w1)" by (cases "tryAcceptSelf prev cur w")
      have f1: "fatals w1 = fatals w" using fatals_primitives(7)[of prev cur w] a by simp
      obtain r2 w2 where t: "trySelfAccepts ns w1 = (r2, w2)" by (cases "trySelfAccepts ns w1")
      have "fatals w2 = fatals w1" using Cons.IH[of w1] t by simp
      then show ?thesis using Some Inr a t f1 by (cases r2) simp_all
    qed
  qed
qed

lemma fatals_replaceComponent: "fatals (fst (snd (replaceComponent ns frs s))) = fatals (fst s)"
proof -
  obtain w stats fatal where s: "s = (w, stats, fatal)" by (cases s)
  obtain r1 w1 fatal1 where a: "replaceInstances ns (w, fatal) = (r1, w1, fatal1)"
    by (cases "replaceInstances ns (w, fatal)") auto
  have f1: "fatals w1 = fatals w" using fatals_replaceInstances[of ns "(w, fatal)"] a by simp
  obtain r2 w2 where b: "linkCurrent ns w1 = (r2, w2)" by (cases "linkCurrent ns w1")
  have f2: "fatals w2 = fatals w1" using fatals_linkCurrent[of ns w1] b by simp
  obtain r3 w3 stats3 where c: "iterateWithRollback evaluateStep evaluateRollback [] ns (w2, stats) = (r3, w3, stats3)"
    by (cases "iterateWithRollback evaluateStep evaluateRollback [] ns (w2, stats)") auto
  have "fatals (fst (snd (iterateWithRollback evaluateStep evaluateRollback [] ns (w2, stats)))) = fatals (fst (w2, stats))"
    by (rule fatals_iterateWithRollback[where F = "\<lambda>s. fatals (fst s)"])
      (simp_all add: fatals_evaluateStep fatals_evaluateRollback)
  then have f3: "fatals w3 = fatals w2" using c by simp
  obtain r4 w4 where d: "trySelfAccepts ns w3 = (r4, w4)" by (cases "trySelfAccepts ns w3")
  have f4: "fatals w4 = fatals w3" using fatals_trySelfAccepts[of ns w3] d by simp
  show ?thesis using s a b c d f1 f2 f3 f4
    by (auto simp: replaceComponent_def split: option.splits sum.splits)
qed

lemma fatals_commitPost: "fatals (fst (snd (commitPost ns frs s))) = fatals (fst s)"
proof -
  obtain w stats fatal where s: "s = (w, stats, fatal)" by (cases s)
  have tail: "fatals (fst (snd (case r of
        Inl e \<Rightarrow> (Inl e, (v, stats, fatal))
      | Inr needsUpdate' \<Rightarrow>
          if \<not> needsUpdate'
          then (case keepCurrent ns v of
              (Some e, w2) \<Rightarrow> (Inl e, (w2, stats, fatal))
            | (None, w2) \<Rightarrow> (Inr (RunResult frs [] b), (w2, stats, fatal)))
          else replaceComponent ns frs (v, stats, fatal)))) = fatals v" for r v b
  proof (cases r)
    case (Inl e)
    then show ?thesis by simp
  next
    case nu: (Inr needsUpdate')
    show ?thesis
    proof (cases needsUpdate')
      case True
      then show ?thesis using nu fatals_replaceComponent[of ns frs "(v, stats, fatal)"] by simp
    next
      case False
      obtain r2 w2 where k: "keepCurrent ns v = (r2, w2)" by (cases "keepCurrent ns v")
      have "fatals w2 = fatals v" using fatals_keepCurrent[of ns v] k by simp
      then show ?thesis using nu False k by (cases r2) simp_all
    qed
  qed
  show ?thesis
  proof (cases "hasStagingOrInvalidated ns w")
    case (Inl e)
    then show ?thesis using s by (simp add: commitPost_def)
  next
    case (Inr needsUpdate)
    show ?thesis
    proof (cases "list_ex treeDidUpdate frs \<and> \<not> needsUpdate")
      case True
      obtain r1 w1 where a: "relinkAndAccept (concat (map runInvalidated frs)) ns w = (r1, w1)"
        by (cases "relinkAndAccept (concat (map runInvalidated frs)) ns w")
      have "fatals w1 = fatals w"
        using fatals_relinkAndAccept[of "concat (map runInvalidated frs)" ns w] a by simp
      then show ?thesis
        using s Inr True a by (simp add: commitPost_def Let_def tail)
    next
      case False
      then show ?thesis
        using s Inr tail[where r = "Inr needsUpdate" and v = w] by (auto simp: commitPost_def Let_def)
    qed
  qed
qed

lemma commitTraversal_keeps_fatals:
  assumes "commitTraversal fuel this w = Some (r, w1, rest)"
  shows "fatals w1 = fatals w"
proof -
  have "fatals (fst (w1, rest)) = fatals w"
    by (rule traverseDepthFirst_preserves[where P = "\<lambda>s. fatals (fst s) = fatals w",
          OF _ _ _ assms[unfolded commitTraversal_def]])
      (simp_all add: commitPre_def split_beta fatals_commitPost noCancel_def)
  then show ?thesis by simp
qed

lemma fatals_relinkPre: "fatals (snd (relinkPre n w)) = fatals w"
  by (simp add: relinkPre_def Let_def split: option.splits)

lemma fatals_relinkPost: "fatals (snd (relinkPost ns frs w)) = fatals w"
proof (induction ns arbitrary: w)
  case Nil
  then show ?case by simp
next
  case (Cons n ns)
  then show ?case by (auto simp: fatals_relink split: sum.splits)
qed

lemma recover_keeps_fatals:
  assumes "recover fuel this e s = Some (out, w')" and "c \<noteq> this"
  shows "fatals w' c = fatals (fst s) c"
proof -
  obtain w stats fatal where s: "s = (w, stats, fatal)" by (cases s)
  obtain r1 w1 where t: "traverseDepthFirst fuel this relinkPre relinkPost noCancel w = Some (r1, w1)"
    using assms(1) s by (auto simp: recover_def split: option.splits)
  have f1: "fatals w1 = fatals w"
    by (rule traverseDepthFirst_preserves[where P = "\<lambda>v. fatals v = fatals w", OF _ _ _ t])
      (simp_all add: fatals_relinkPre fatals_relinkPost noCancel_def)
  have "fatalError (controllers w1 c) = fatalError (controllers w c)"
    using f1 by (simp add: fatals_def fun_eq_iff)
  then show ?thesis
    using assms s t by (cases r1) (auto simp: recover_def fatals_def split: if_splits)
qed

lemma pruneOrphans_keeps_fatals:
  "c \<noteq> this \<Longrightarrow> fatals (snd (pruneOrphans this cur prev w)) c = fatals w c"
proof (induction prev arbitrary: w)
  case Nil
  then show ?case by simp
next
  case (Cons a prev)
  show ?case
  proof (cases "a \<in> set cur")
    case True
    then show ?thesis using Cons by simp
  next
    case False
    then show ?thesis
      using Cons.prems Cons.IH
      by (auto simp: select_def selectCurrent_def split_beta fatals_def split: option.splits if_splits)
  qed
qed

lemma finalize_keeps_fatals:
  assumes "finalize fuel this prev out w = Some (out', w')" and "c \<noteq> this"
  shows "fatals w' c = fatals w c"
proof -
  obtain r1 cur w1 where t: "traverse fuel clearPrevious this w = Some (r1, cur, w1)"
    using assms(1) by (auto simp: finalize_def split: option.splits)
  have f1: "fatals w1 = fatals w"
    by (rule traverse_preserves[where P = "\<lambda>v. fatals v = fatals w", OF _ t])
      (auto simp: clearPrevious_def split: if_splits)
  show ?thesis
  proof (cases r1)
    case (Some e)
    then show ?thesis using assms(1) t f1 by (simp add: finalize_def)
  next
    case None
    obtain r2 w2 where p: "pruneOrphans this cur prev w1 = (r2, w2)"
      by (cases "pruneOrphans this cur prev w1")
    have "fatals w2 c = fatals w1 c" using pruneOrphans_keeps_fatals[OF assms(2), of cur prev w1] p by simp
    then show ?thesis using assms(1) t None p f1 by (cases r2) (auto simp: finalize_def)
  qed
qed

lemma commit_keeps_fatals:
  assumes "commit fuel this w = Some (out, w')" and "c \<noteq> this"
  shows "fatals w' c = fatals w c"
proof -
  obtain r0 prev w1 where t: "traverse fuel (\<lambda>node w. Inr w) this w = Some (r0, prev, w1)"
    using assms(1) by (auto simp: commit_def split: option.splits)
  have f1: "fatals w1 = fatals w"
    by (rule traverse_preserves[where P = "\<lambda>v. fatals v = fatals w", OF _ t]) auto
  show ?thesis
  proof (cases r0)
    case (Some e)
    then show ?thesis using assms(1) t f1 by (simp add: commit_def)
  next
    case None
    obtain res w2 stats fatal where ct: "commitTraversal fuel this w1 = Some (res, w2, stats, fatal)"
      using assms(1) t None by (auto simp: commit_def split: option.splits)
    have f2: "fatals w2 = fatals w1" using commitTraversal_keeps_fatals[OF ct] .
    show ?thesis
    proof (cases res)
      case (Inr result)
      then have "finalize fuel this prev (if \<not> treeDidUpdate result then Returned Undefined
          else Returned (UpdateSuccess stats)) w2 = Some (out, w')"
        using assms(1) t None ct by (simp add: commit_def)
      then show ?thesis using finalize_keeps_fatals[OF _ assms(2)] f1 f2 by metis
    next
      case (Inl e0)
      obtain out3 w3 where r: "recover fuel this e0 (w2, stats, fatal) = Some (out3, w3)"
        using assms(1) t None ct Inl by (auto simp: commit_def split: option.splits)
      then have fin: "finalize fuel this prev out3 w3 = Some (out, w')"
        using assms(1) t None ct Inl by (simp add: commit_def)
      have "fatals w3 c = fatals w2 c" using recover_keeps_fatals[OF r assms(2)] by simp
      then show ?thesis using finalize_keeps_fatals[OF fin assms(2)] f1 f2 by simp
    qed
  qed
qed

lemma requestUpdate_keeps_fatals:
  assumes "requestUpdate fuel this w = Some (out, w')" and "c \<noteq> this"
  shows "fatals w' c = fatals w c"
proof (cases "fatalError (controllers w this)")
  case (Some e')
  then show ?thesis using assms by (auto simp: requestUpdate_def)
next
  case None
  obtain res w1 nextControllers where d: "dryRun fuel this w = Some (res, w1, nextControllers)"
    using assms None by (auto simp: requestUpdate_def split: option.splits prod.splits)
  have f1: "fatals w1 = fatals w" using dryRun_keeps_fatals[OF d] .
  have f1': "fatals (rollback nextControllers w1) = fatals w"
    using f1 by (simp add: rollback_def fatals_clearUpdate)
  show ?thesis
  proof (cases res)
    case (Inl e0)
    then show ?thesis using assms None d f1 by (auto simp: requestUpdate_def)
  next
    case (Inr initialResult)
    show ?thesis
    proof (cases "\<not> needsDispatch initialResult \<or> hasDecline initialResult \<or> invalidated initialResult \<noteq> []")
      case True
      then show ?thesis
        using assms(1) None d Inr f1 f1'
        by (auto simp: requestUpdate_def split: if_splits prod.splits sum.splits)
    next
      case False
      obtain res2 w2 where l: "(if hasNewCode initialResult then linkTest fuel this nextControllers w1
          else Some (None, w1)) = Some (res2, w2)"
        using assms None d Inr False by (auto simp: requestUpdate_def split: option.splits prod.splits)
      have f2: "fatals w2 = fatals w1"
        using l linkTest_keeps_fatals by (auto split: if_splits)
      show ?thesis
      proof (cases res2)
        case None
        then have "commit fuel this w2 = Some (out, w')"
          using assms \<open>fatalError (controllers w this) = None\<close> d Inr False l by (simp add: requestUpdate_def)
        then show ?thesis using commit_keeps_fatals[OF _ assms(2)] f1 f2 by metis
      next
        case (Some out2)
        then have "w' = w2"
          using assms \<open>fatalError (controllers w this) = None\<close> d Inr False l by (simp add: requestUpdate_def)
        then show ?thesis using f1 f2 by simp
      qed
    qed
  qed
qed

lemma load_keeps_fatals: "fatals (load that b m u f a lms w) = fatals w"
  by (simp add: load_def Let_def split_beta fatals_def fun_eq_iff)


section \<open>The dry run: its steps\<close>

lemma clearUpdate_closed:
  "clearUpdate ns w = w\<lparr> controllers := (\<lambda>c. if c \<in> set ns
       then (controllers w c)\<lparr> pending := None, previous := None \<rparr> else controllers w c) \<rparr>"
proof (induction ns arbitrary: w)
  case Nil
  then show ?case by (simp add: clearUpdate_def)
next
  case (Cons n ns)
  have "clearUpdate (n # ns) w =
      clearUpdate ns (setController n (\<lambda>c. c\<lparr> pending := None, previous := None \<rparr>) w)"
    by (simp add: clearUpdate_def)
  then show ?case
    unfolding Cons.IH by (auto simp: setController_def fun_eq_iff)
qed

lemma clearUpdate_simps [simp]:
  "trace (clearUpdate ns w) = trace w"
  "instances (clearUpdate ns w) = instances w"
  "nextId (clearUpdate ns w) = nextId w"
  "resolution (clearUpdate ns w) = resolution w"
  "controllers (clearUpdate ns w) c = (if c \<in> set ns
       then (controllers w c)\<lparr> pending := None, previous := None \<rparr> else controllers w c)"
  by (simp_all add: clearUpdate_closed)

lemma dryRunPre_cases:
  "(\<exists>e. dryRunPre n (w, next') = (Inl e, (w, next'))) \<or>
   (\<exists>i r. dryRunPre n (w, next') = (r,
      (setController n (\<lambda>c. c\<lparr> previous := current c \<rparr>)
         (setController n (\<lambda>c. c\<lparr> pending := Some i \<rparr>) w), next')) \<and>
      (case staging (controllers w n) of Some j \<Rightarrow> i = j | None \<Rightarrow> current (controllers w n) = Some i) \<and>
      r = iterateWithDynamics selectPending selectPreviousOrPending n
        (setController n (\<lambda>c. c\<lparr> previous := current c \<rparr>)
           (setController n (\<lambda>c. c\<lparr> pending := Some i \<rparr>) w)))"
  by (cases "staging (controllers w n)"; cases "current (controllers w n)")
    (simp_all add: dryRunPre_def select_def selectCurrent_def Let_def)


section \<open>The allocator invariant\<close>

text \<open>Every instance that \<open>dispatch\<close> or \<open>requestUpdate\<close> puts into a slot comes from another
  slot or from \<open>clone\<close>, which takes its name from the counter.  So both keep a world
  allocated.\<close>

lemma slot_lt:
  assumes "allocated w"
  shows "current (controllers w c) = Some i \<Longrightarrow> i < nextId w"
    "pending (controllers w c) = Some i \<Longrightarrow> i < nextId w"
    "previous (controllers w c) = Some i \<Longrightarrow> i < nextId w"
    "staging (controllers w c) = Some i \<Longrightarrow> i < nextId w"
    "temporary (controllers w c) = Some i \<Longrightarrow> i < nextId w"
  using assms unfolding allocated_def slotsOf_def by fastforce+

lemma allocated_setController:
  assumes "allocated w" and "\<forall>i \<in> slotsOf (f (controllers w n)). i < nextId w"
  shows "allocated (setController n f w)"
  using assms unfolding allocated_def by simp

lemma allocated_primitives [simp]:
  "allocated (setInstance i g w) = allocated w"
  "allocated (instantiate d i w) = allocated w"
  "allocated (snd (unlink i w)) = allocated w"
  "allocated (snd (evaluate i w)) = allocated w"
  "allocated (snd (tryAccept i ds w)) = allocated w"
  "allocated (snd (tryAcceptSelf i j w)) = allocated w"
  "allocated (snd (dispose i w)) = allocated w"
  "allocated (snd (prune i w)) = allocated w"
  by (simp_all add: allocated_def tryAccept_def tryAcceptSelf_def dispose_def)

lemma allocated_clone: "allocated w \<Longrightarrow> allocated (snd (clone i w))"
  unfolding allocated_def by (auto simp: less_Suc_eq)

lemma allocated_link: "link sel i w = Inr w1 \<Longrightarrow> allocated w1 = allocated w"
  by (simp add: allocated_def link_frame)

lemma allocated_relink: "relink i w = Inr w1 \<Longrightarrow> allocated w1 = allocated w"
  unfolding relink_def by (rule allocated_link)

lemma allocated_clear:
  assumes "allocated w"
  shows "allocated (setController n (\<lambda>c. c\<lparr> current := None \<rparr>) w)"
    "allocated (setController n (\<lambda>c. c\<lparr> pending := None \<rparr>) w)"
    "allocated (setController n (\<lambda>c. c\<lparr> previous := None \<rparr>) w)"
    "allocated (setController n (\<lambda>c. c\<lparr> staging := None \<rparr>) w)"
    "allocated (setController n (\<lambda>c. c\<lparr> temporary := None \<rparr>) w)"
    "allocated (setController n (\<lambda>c. c\<lparr> pending := None, previous := None \<rparr>) w)"
    "allocated (setController n (\<lambda>c. c\<lparr> fatalError := e \<rparr>) w)"
  using assms unfolding allocated_def slotsOf_def by auto

lemma allocated_fill:
  assumes "allocated w" and "i < nextId w"
  shows "allocated (setController n (\<lambda>c. c\<lparr> current := Some i \<rparr>) w)"
    "allocated (setController n (\<lambda>c. c\<lparr> pending := Some i \<rparr>) w)"
    "allocated (setController n (\<lambda>c. c\<lparr> temporary := Some i \<rparr>) w)"
    "allocated (setController n (\<lambda>c. c\<lparr> staging := Some i, current := None, previous := None \<rparr>) w)"
  using assms unfolding allocated_def slotsOf_def by auto

lemma allocated_copy:
  assumes "allocated w"
  shows "allocated (setController n (\<lambda>c. c\<lparr> previous := current c \<rparr>) w)"
    "allocated (setController n (\<lambda>c. c\<lparr> current := previous c \<rparr>) w)"
  using assms unfolding allocated_def slotsOf_def by auto

lemma keeps_iterateWithRollback:
  assumes step: "\<And>n s. P s \<Longrightarrow> P (snd (step n s))"
      and undo: "\<And>ns s. P s \<Longrightarrow> P (snd (rollback' ns s))"
  shows "P s \<Longrightarrow> P (snd (iterateWithRollback step rollback' dn ns s))"
proof (induction ns arbitrary: dn s)
  case Nil
  then show ?case by simp
next
  case (Cons n ns)
  obtain r s1 where s1: "step n s = (r, s1)" by (cases "step n s")
  have p1: "P s1" using step[OF Cons.prems, of n] s1 by simp
  show ?case
  proof (cases r)
    case None
    then show ?thesis using Cons.IH[OF p1, of "dn @ [n]"] s1 by simp
  next
    case (Some e)
    obtain r2 s2 where s2: "rollback' (dn @ [n]) s1 = (r2, s2)" by (cases "rollback' (dn @ [n]) s1")
    have "P s2" using undo[OF p1, of "dn @ [n]"] s2 by simp
    then show ?thesis using s1 s2 Some by (cases r2) simp_all
  qed
qed

lemma allocated_forgetUnlinked: "allocated w \<Longrightarrow> allocated (snd (forgetUnlinked ns w))"
proof (induction ns arbitrary: w)
  case Nil
  then show ?case by simp
next
  case (Cons n ns)
  show ?case
  proof (cases "select selectCurrent n w")
    case (Inl e)
    then show ?thesis using Cons.prems by simp
  next
    case (Inr i)
    obtain b w1 where u: "unlink i w = (b, w1)" by (cases "unlink i w")
    have a1: "allocated w1" using allocated_primitives(3)[of i w] u Cons.prems by simp
    show ?thesis
    proof (cases b)
      case True
      then show ?thesis using Inr u Cons.IH[OF allocated_clear(1)[OF a1]] by simp
    next
      case False
      then show ?thesis using Inr u Cons.IH[OF a1] by simp
    qed
  qed
qed

lemma allocated_dispatchInstantiate:
  assumes "allocated w"
  shows "allocated (snd (dispatchInstantiate n w))"
proof (cases "current (controllers w n) = None")
  case False
  then show ?thesis using assms by (auto simp: dispatchInstantiate_def)
next
  case True
  show ?thesis
  proof (cases "staging (controllers w n)")
    case None
    then show ?thesis using assms True by (simp add: dispatchInstantiate_def select_def selectStaging_def)
  next
    case (Some i)
    have "i < nextId w" using slot_lt(4)[OF assms Some] .
    then have "allocated (setController n (\<lambda>c. c\<lparr> current := Some i \<rparr>) w)"
      using allocated_fill(1)[OF assms] by blast
    then show ?thesis
      using True Some by (simp add: dispatchInstantiate_def select_def selectStaging_def Let_def)
  qed
qed

lemma allocated_dispatchLinkStep: "allocated w \<Longrightarrow> allocated (snd (dispatchLinkStep n w))"
  by (auto simp: dispatchLinkStep_def allocated_link split: sum.splits)

lemma allocated_dispatchLink:
  assumes "allocated w"
  shows "allocated (snd (dispatchLink ns frs w))"
proof -
  have "allocated (snd (iterateWithRollback dispatchLinkStep forgetUnlinked [] ns w))"
    by (rule keeps_iterateWithRollback[where P = allocated])
      (simp_all add: allocated_dispatchLinkStep allocated_forgetUnlinked assms)
  then show ?thesis by (auto simp: dispatchLink_def split: prod.splits option.splits)
qed

lemma allocated_dispatchEvaluate: "allocated w \<Longrightarrow> allocated (snd (dispatchEvaluate ns frs w))"
proof (induction ns arbitrary: w)
  case Nil
  then show ?case by simp
next
  case (Cons n ns)
  show ?case
  proof (cases "select selectCurrent n w")
    case (Inl e)
    then show ?thesis using Cons.prems by simp
  next
    case (Inr i)
    define w1 where "w1 = (if Some i = staging (controllers w n)
        then setController n (\<lambda>c. c\<lparr> staging := None \<rparr>) w else w)"
    have a1: "allocated w1" using Cons.prems allocated_clear(4) by (simp add: w1_def)
    obtain r w2 where e: "evaluate i w1 = (r, w2)" by (cases "evaluate i w1")
    have a2: "allocated w2" using allocated_primitives(4)[of i w1] e a1 by simp
    show ?thesis using Inr e a2 Cons.IH[OF a2] by (cases r) (simp_all add: w1_def Let_def)
  qed
qed

lemma dispatch_keeps_allocated:
  assumes "dispatch fuel this w = Some (r, w')" and "allocated w"
  shows "allocated w'"
proof (cases "current (controllers w this) = None")
  case False
  then show ?thesis using assms by (auto simp: dispatch_def)
next
  case True
  obtain r1 w1 where t1: "traverseDepthFirst fuel this dispatchInstantiate dispatchLink dispatchCancel w = Some (r1, w1)"
    using assms True by (auto simp: dispatch_def split: option.splits)
  have a1: "allocated w1"
    by (rule traverseDepthFirst_preserves[where P = allocated, OF _ _ _ t1 assms(2)])
      (simp_all add: allocated_dispatchInstantiate allocated_dispatchLink dispatchCancel_def
        allocated_forgetUnlinked)
  show ?thesis
  proof (cases r1)
    case (Inl e)
    then show ?thesis using assms True t1 a1 by (simp add: dispatch_def)
  next
    case (Inr u)
    then have t2: "traverseDepthFirst fuel this (\<lambda>node w. (iterate selectCurrent node w, w))
        dispatchEvaluate noCancel w1 = Some (r, w')"
      using assms True t1 by (simp add: dispatch_def)
    show ?thesis
      by (rule traverseDepthFirst_preserves[where P = allocated, OF _ _ _ t2 a1])
        (simp_all add: allocated_dispatchEvaluate noCancel_def)
  qed
qed

lemma allocated_clearUpdate: "allocated w \<Longrightarrow> allocated (clearUpdate ns w)"
  unfolding allocated_def slotsOf_def by (auto simp: clearUpdate_closed)

lemma allocated_dryRunPre:
  assumes "allocated (fst s)"
  shows "allocated (fst (snd (dryRunPre n s)))"
proof -
  obtain w nx where s: "s = (w, nx)" by (cases s)
  have a: "allocated w" using assms s by simp
  from dryRunPre_cases[of n w nx] show ?thesis
  proof (elim disjE exE conjE)
    fix e assume "dryRunPre n (w, nx) = (Inl e, (w, nx))"
    then show ?thesis using s a by simp
  next
    fix i r
    assume d: "dryRunPre n (w, nx) = (r,
        (setController n (\<lambda>c. c\<lparr> previous := current c \<rparr>)
           (setController n (\<lambda>c. c\<lparr> pending := Some i \<rparr>) w), nx))"
      and i: "case staging (controllers w n) of Some j \<Rightarrow> i = j | None \<Rightarrow> current (controllers w n) = Some i"
    have "i < nextId w"
      using i slot_lt(1,4)[OF a, of n i] by (cases "staging (controllers w n)") auto
    then have "allocated (setController n (\<lambda>c. c\<lparr> pending := Some i \<rparr>) w)"
      using allocated_fill(2)[OF a] by blast
    then have "allocated (setController n (\<lambda>c. c\<lparr> previous := current c \<rparr>)
           (setController n (\<lambda>c. c\<lparr> pending := Some i \<rparr>) w))"
      by (rule allocated_copy(1))
    then show ?thesis using s d by simp
  qed
qed

lemma dryRun_keeps_allocated:
  assumes "dryRun fuel this w = Some (r, w1, next')" and "allocated w"
  shows "allocated w1"
proof -
  have "allocated (fst (w1, next'))"
    by (rule traverseDepthFirst_preserves[where P = "\<lambda>s. allocated (fst s)",
          OF _ _ _ assms(1)[unfolded dryRun_def]])
      (simp_all add: allocated_dryRunPre world_dryRunPost dryRunCancel_def split_beta
        allocated_clearUpdate assms(2))
  then show ?thesis by simp
qed

lemma allocated_instantiateTemporaries:
  "allocated (fst s) \<Longrightarrow> allocated (fst (snd (instantiateTemporaries ns s)))"
proof (induction ns arbitrary: s)
  case Nil
  then show ?case by simp
next
  case (Cons n ns)
  obtain w inst where s: "s = (w, inst)" by (cases s)
  have a: "allocated w" using Cons.prems s by simp
  show ?case
  proof (cases "select selectPending n w")
    case (Inl e)
    then show ?thesis using s a by simp
  next
    case (Inr p)
    have c: "allocated (snd (clone p w))" using a by (rule allocated_clone)
    have "fst (clone p w) < nextId (snd (clone p w))" by simp
    then have "allocated (setController n (\<lambda>c. c\<lparr> temporary := Some (fst (clone p w)) \<rparr>) (snd (clone p w)))"
      using allocated_fill(3)[OF c] by blast
    then have "allocated (fst (instantiate None (fst (clone p w))
        (setController n (\<lambda>c. c\<lparr> temporary := Some (fst (clone p w)) \<rparr>) (snd (clone p w))), inst @ [n]))"
      by simp
    from Cons.IH[OF this] show ?thesis using s Inr by (simp add: split_beta)
  qed
qed

lemma allocated_linkTemporaries: "allocated w \<Longrightarrow> allocated (snd (linkTemporaries ns w))"
proof (induction ns arbitrary: w)
  case Nil
  then show ?case by simp
next
  case (Cons n ns)
  then show ?case by (auto simp: allocated_link split: sum.splits)
qed

lemma allocated_linkTestPost:
  assumes "allocated (fst s)"
  shows "allocated (fst (snd (linkTestPost ns frs s)))"
proof -
  obtain w inst where s: "s = (w, inst)" by (cases s)
  obtain r1 w1 inst1 where i: "instantiateTemporaries ns (w, inst) = (r1, w1, inst1)"
    by (cases "instantiateTemporaries ns (w, inst)") auto
  have a1: "allocated w1" using allocated_instantiateTemporaries[of "(w, inst)" ns] i assms s by simp
  obtain r2 w2 where l: "linkTemporaries ns w1 = (r2, w2)" by (cases "linkTemporaries ns w1")
  have a2: "allocated w2" using allocated_linkTemporaries[OF a1, of ns] l by simp
  show ?thesis using s i l a1 a2 assms
    by (auto simp: linkTestPost_def split: sum.splits option.splits)
qed

lemma allocated_discardTemporaries: "allocated w \<Longrightarrow> allocated (snd (discardTemporaries ns w))"
proof (induction ns arbitrary: w)
  case Nil
  then show ?case by simp
next
  case (Cons n ns)
  show ?case
  proof (cases "select selectTemporary n w")
    case (Inl e)
    then show ?thesis using Cons.prems by simp
  next
    case (Inr t)
    have "allocated (snd (unlink t w))" using Cons.prems by simp
    then have "allocated (setController n (\<lambda>c. c\<lparr> temporary := None \<rparr>) (snd (unlink t w)))"
      by (rule allocated_clear(5))
    from Cons.IH[OF this] show ?thesis using Inr by simp
  qed
qed

lemma linkTest_keeps_allocated:
  assumes "linkTest fuel this nextControllers w = Some (r, w')" and "allocated w"
  shows "allocated w'"
proof -
  obtain r1 w1 inst where t: "linkTestTraversal fuel this w = Some (r1, w1, inst)"
    using assms by (auto simp: linkTest_def split: option.splits)
  have "allocated (fst (w1, inst))"
    by (rule traverseDepthFirst_preserves[where P = "\<lambda>s. allocated (fst s)",
          OF _ _ _ t[unfolded linkTestTraversal_def]])
      (simp_all add: linkTestPre_def split_beta allocated_linkTestPost noCancel_def assms(2))
  then have a1: "allocated w1" by simp
  show ?thesis
  proof (cases r1)
    case (Inl e)
    obtain r2 w2 where d: "discardTemporaries inst (rollback nextControllers w1) = (r2, w2)"
      by (cases "discardTemporaries inst (rollback nextControllers w1)")
    have "allocated (rollback nextControllers w1)"
      using a1 by (simp add: rollback_def allocated_clearUpdate)
    then have "allocated w2"
      using allocated_discardTemporaries[of "rollback nextControllers w1" inst] d by simp
    then show ?thesis using assms t Inl d by (cases r2) (auto simp: linkTest_def)
  next
    case (Inr b)
    obtain r2 w2 where d: "discardTemporaries inst w1 = (r2, w2)"
      by (cases "discardTemporaries inst w1")
    have "allocated w2" using allocated_discardTemporaries[OF a1, of inst] d by simp
    then show ?thesis using assms t Inr d by (cases r2) (auto simp: linkTest_def)
  qed
qed

lemma allocated_relinkAndAccept: "allocated w \<Longrightarrow> allocated (snd (relinkAndAccept fu ns w))"
proof (induction ns arbitrary: w)
  case Nil
  then show ?case by simp
next
  case (Cons n ns)
  show ?case
  proof (cases "select selectCurrent n w")
    case (Inl e)
    then show ?thesis using Cons.prems by simp
  next
    case cur: (Inr cur)
    show ?thesis
    proof (cases "relink cur w")
      case (Inl e)
      then show ?thesis using cur Cons.prems by simp
    next
      case w1: (Inr w1)
      have a1: "allocated w1" using allocated_relink[OF w1] Cons.prems by simp
      show ?thesis
      proof (cases "select selectCurrent n w1")
        case (Inl e)
        then show ?thesis using cur w1 a1 by simp
      next
        case (Inr cur')
        obtain ok w2 where a: "tryAccept cur' fu w1 = (ok, w2)" by (cases "tryAccept cur' fu w1")
        have a2: "allocated w2" using allocated_primitives(5)[of cur' fu w1] a a1 by simp
        show ?thesis using cur w1 Inr a a2 Cons.IH[OF a2] by (cases ok) simp_all
      qed
    qed
  qed
qed

lemma allocated_keepCurrent: "allocated w \<Longrightarrow> allocated (snd (keepCurrent ns w))"
proof (induction ns arbitrary: w)
  case Nil
  then show ?case by simp
next
  case (Cons n ns)
  show ?case using Cons.prems Cons.IH[OF allocated_clear(2)[OF Cons.prems]] by simp
qed

lemma allocated_replaceInstances:
  "allocated (fst s) \<Longrightarrow> allocated (fst (snd (replaceInstances ns s)))"
proof (induction ns arbitrary: s)
  case Nil
  then show ?case by simp
next
  case (Cons n ns)
  obtain w fatal where s: "s = (w, fatal)" by (cases s)
  have a: "allocated w" using Cons.prems s by simp
  show ?case
  proof (cases "select selectPending n w")
    case (Inl e)
    then show ?thesis using s a by simp
  next
    case (Inr p)
    have p: "p < nextId w" using Inr slot_lt(2)[OF a, of n p] by (simp add: select_simps selectPending_def)
    obtain r1 w1 where d: "(case current (controllers w n) of None \<Rightarrow> (Inr None, w)
        | Some cur \<Rightarrow> dispose cur w) = (r1, w1)"
      by (cases "case current (controllers w n) of None \<Rightarrow> (Inr None, w) | Some cur \<Rightarrow> dispose cur w")
    have a1: "allocated w1" "nextId w1 = nextId w"
      using d a by (cases "current (controllers w n)"; auto simp: dispose_def allocated_def)+
    show ?thesis
    proof (cases r1)
      case (Inl e)
      then show ?thesis using s Inr d a1 by simp
    next
      case data: (Inr data)
      obtain i w2 where c: "(if current (controllers w1 n) = Some p then clone p w1 else (p, w1)) = (i, w2)"
        by (cases "if current (controllers w1 n) = Some p then clone p w1 else (p, w1)")
      have a2: "allocated w2 \<and> i < nextId w2"
      proof (cases "current (controllers w1 n) = Some p")
        case True
        with c have "w2 = snd (clone p w1)" "i = fst (clone p w1)" by simp_all
        then show ?thesis using allocated_clone[OF a1(1), of p] by simp
      next
        case False
        then show ?thesis using c a1 p by simp
      qed
      have "allocated (setController n (\<lambda>c. c\<lparr> current := Some i \<rparr>) w2)"
        using allocated_fill(1) a2 by blast
      then have "allocated (fst (instantiate data i (setController n (\<lambda>c. c\<lparr> current := Some i \<rparr>) w2), fatal))"
        by simp
      from Cons.IH[OF this] show ?thesis
        using s Inr d data c by simp
    qed
  qed
qed

lemma allocated_linkCurrent: "allocated w \<Longrightarrow> allocated (snd (linkCurrent ns w))"
proof (induction ns arbitrary: w)
  case Nil
  then show ?case by simp
next
  case (Cons n ns)
  then show ?case by (auto simp: allocated_link split: sum.splits)
qed

lemma allocated_evaluateStep:
  assumes "allocated (fst s)"
  shows "allocated (fst (snd (evaluateStep n s)))"
proof -
  obtain w stats where s: "s = (w, stats)" by (cases s)
  have a: "allocated w" using assms s by simp
  show ?thesis
  proof (cases "select selectCurrent n w")
    case (Inl e)
    then show ?thesis using s a by (simp add: evaluateStep_def)
  next
    case (Inr cur)
    obtain r w1 where e: "evaluate cur w = (r, w1)" by (cases "evaluate cur w")
    have a1: "allocated w1" using allocated_primitives(4)[of cur w] e a by simp
    have a2: "allocated (setController n (\<lambda>c. c\<lparr> pending := None \<rparr>) w1)"
      using a1 by (rule allocated_clear(2))
    have a3: "allocated (setController n (\<lambda>c. c\<lparr> staging := None \<rparr>)
        (setController n (\<lambda>c. c\<lparr> pending := None \<rparr>) w1))"
      using a2 by (rule allocated_clear(4))
    show ?thesis using s Inr e a1 a2 a3 by (cases r) (simp_all add: evaluateStep_def Let_def)
  qed
qed

lemma allocated_evaluateRollback:
  "allocated (fst s) \<Longrightarrow> allocated (fst (snd (evaluateRollback ns s)))"
proof (induction ns arbitrary: s)
  case Nil
  then show ?case by simp
next
  case (Cons n ns)
  obtain w stats where s: "s = (w, stats)" by (cases s)
  have a: "allocated w" using Cons.prems s by simp
  show ?case
  proof (cases "select selectCurrent n w")
    case (Inl e)
    then show ?thesis using s a by simp
  next
    case (Inr cur)
    have "allocated (fst (setController n (\<lambda>c. c\<lparr> current := previous c \<rparr>) w, stats))"
      using allocated_copy(2)[OF a] by simp
    from Cons.IH[OF this] Cons.IH[OF Cons.prems] show ?thesis using s Inr a by simp
  qed
qed

lemma allocated_trySelfAccepts: "allocated w \<Longrightarrow> allocated (snd (trySelfAccepts ns w))"
proof (induction ns arbitrary: w)
  case Nil
  then show ?case by simp
next
  case (Cons n ns)
  show ?case
  proof (cases "previous (controllers w n)")
    case None
    then show ?thesis using Cons.IH[OF Cons.prems] by simp
  next
    case (Some prev)
    show ?thesis
    proof (cases "select selectCurrent n w")
      case (Inl e)
      then show ?thesis using Some Cons.prems by simp
    next
      case (Inr cur)
      obtain ok w1 where a: "tryAcceptSelf prev cur w = (ok, w1)" by (cases "tryAcceptSelf prev cur w")
      have a1: "allocated w1" using allocated_primitives(6)[of prev cur w] a Cons.prems by simp
      obtain r2 w2 where t: "trySelfAccepts ns w1 = (r2, w2)" by (cases "trySelfAccepts ns w1")
      have "allocated w2" using Cons.IH[OF a1] t by simp
      then show ?thesis using Some Inr a t by (cases r2) simp_all
    qed
  qed
qed

lemma allocated_replaceComponent:
  assumes "allocated (fst s)"
  shows "allocated (fst (snd (replaceComponent ns frs s)))"
proof -
  obtain w stats fatal where s: "s = (w, stats, fatal)" by (cases s)
  have a: "allocated w" using assms s by simp
  obtain r1 w1 fatal1 where i: "replaceInstances ns (w, fatal) = (r1, w1, fatal1)"
    by (cases "replaceInstances ns (w, fatal)") auto
  have a1: "allocated w1" using allocated_replaceInstances[of "(w, fatal)" ns] i a by simp
  obtain r2 w2 where b: "linkCurrent ns w1 = (r2, w2)" by (cases "linkCurrent ns w1")
  have a2: "allocated w2" using allocated_linkCurrent[OF a1, of ns] b by simp
  obtain r3 w3 stats3 where c: "iterateWithRollback evaluateStep evaluateRollback [] ns (w2, stats) = (r3, w3, stats3)"
    by (cases "iterateWithRollback evaluateStep evaluateRollback [] ns (w2, stats)") auto
  have "allocated (fst (snd (iterateWithRollback evaluateStep evaluateRollback [] ns (w2, stats))))"
    by (rule keeps_iterateWithRollback[where P = "\<lambda>s. allocated (fst s)"])
      (simp_all add: allocated_evaluateStep allocated_evaluateRollback a2)
  then have a3: "allocated w3" using c by simp
  obtain r4 w4 where d: "trySelfAccepts ns w3 = (r4, w4)" by (cases "trySelfAccepts ns w3")
  have a4: "allocated w4" using allocated_trySelfAccepts[OF a3, of ns] d by simp
  show ?thesis using s i b c d a1 a2 a3 a4
    by (auto simp: replaceComponent_def split: option.splits sum.splits)
qed

lemma allocated_commitPost:
  assumes "allocated (fst s)"
  shows "allocated (fst (snd (commitPost ns frs s)))"
proof -
  obtain w stats fatal where s: "s = (w, stats, fatal)" by (cases s)
  have a: "allocated w" using assms s by simp
  have tail: "allocated (fst (snd (case r of
        Inl e \<Rightarrow> (Inl e, (v, stats, fatal))
      | Inr needsUpdate' \<Rightarrow>
          if \<not> needsUpdate'
          then (case keepCurrent ns v of
              (Some e, w2) \<Rightarrow> (Inl e, (w2, stats, fatal))
            | (None, w2) \<Rightarrow> (Inr (RunResult frs [] b), (w2, stats, fatal)))
          else replaceComponent ns frs (v, stats, fatal))))" if v: "allocated v" for r v b
  proof (cases r)
    case (Inl e)
    then show ?thesis using v by simp
  next
    case nu: (Inr needsUpdate')
    show ?thesis
    proof (cases needsUpdate')
      case True
      then show ?thesis using nu allocated_replaceComponent[of "(v, stats, fatal)" ns frs] v by simp
    next
      case False
      obtain r2 w2 where k: "keepCurrent ns v = (r2, w2)" by (cases "keepCurrent ns v")
      have "allocated w2" using allocated_keepCurrent[OF v, of ns] k by simp
      then show ?thesis using nu False k by (cases r2) simp_all
    qed
  qed
  show ?thesis
  proof (cases "hasStagingOrInvalidated ns w")
    case (Inl e)
    then show ?thesis using s a by (simp add: commitPost_def)
  next
    case (Inr needsUpdate)
    show ?thesis
    proof (cases "list_ex treeDidUpdate frs \<and> \<not> needsUpdate")
      case True
      obtain r1 w1 where ra: "relinkAndAccept (concat (map runInvalidated frs)) ns w = (r1, w1)"
        by (cases "relinkAndAccept (concat (map runInvalidated frs)) ns w")
      have "allocated w1"
        using allocated_relinkAndAccept[OF a, of "concat (map runInvalidated frs)" ns] ra by simp
      from tail[OF this] show ?thesis
        using s Inr True ra by (simp add: commitPost_def Let_def)
    next
      case False
      then show ?thesis
        using s Inr tail[OF a, where r = "Inr needsUpdate"] by (auto simp: commitPost_def Let_def)
    qed
  qed
qed

lemma commitTraversal_keeps_allocated:
  assumes "commitTraversal fuel this w = Some (r, w1, rest)" and "allocated w"
  shows "allocated w1"
proof -
  have "allocated (fst (w1, rest))"
    by (rule traverseDepthFirst_preserves[where P = "\<lambda>s. allocated (fst s)",
          OF _ _ _ assms(1)[unfolded commitTraversal_def]])
      (simp_all add: commitPre_def split_beta allocated_commitPost noCancel_def assms(2))
  then show ?thesis by simp
qed

lemma allocated_relinkPre: "allocated w \<Longrightarrow> allocated (snd (relinkPre n w))"
  by (auto simp: relinkPre_def Let_def allocated_clear split: option.splits)

lemma allocated_relinkPost: "allocated w \<Longrightarrow> allocated (snd (relinkPost ns frs w))"
proof (induction ns arbitrary: w)
  case Nil
  then show ?case by simp
next
  case (Cons n ns)
  then show ?case by (auto simp: allocated_relink split: sum.splits)
qed

lemma recover_keeps_allocated:
  assumes "recover fuel this e s = Some (out, w')" and "allocated (fst s)"
  shows "allocated w'"
proof -
  obtain w stats fatal where s: "s = (w, stats, fatal)" by (cases s)
  obtain r1 w1 where t: "traverseDepthFirst fuel this relinkPre relinkPost noCancel w = Some (r1, w1)"
    using assms(1) s by (auto simp: recover_def split: option.splits)
  have a1: "allocated w1"
    by (rule traverseDepthFirst_preserves[where P = allocated, OF _ _ _ t])
      (use assms(2) s in \<open>simp_all add: allocated_relinkPre allocated_relinkPost noCancel_def\<close>)
  show ?thesis
    using assms(1) s t a1 allocated_clear(7)[OF a1]
    by (cases r1) (auto simp: recover_def split: if_splits)
qed

lemma allocated_pruneOrphans:
  "allocated w \<Longrightarrow> allocated (snd (pruneOrphans this cur prev w))"
proof (induction prev arbitrary: w)
  case Nil
  then show ?case by simp
next
  case (Cons c prev)
  show ?case
  proof (cases "c \<in> set cur")
    case True
    then show ?thesis using Cons by simp
  next
    case False
    show ?thesis
    proof (cases "current (controllers w c)")
      case None
      then show ?thesis using Cons.prems False by (simp add: select_def selectCurrent_def)
    next
      case (Some i)
      show ?thesis
      proof (cases "onPrune (hot (instances w i))")
        case e: (Some e)
        have "allocated (setController this (\<lambda>c. c\<lparr> fatalError := Some e \<rparr>) (snd (prune i w)))"
          using Cons.prems by (intro allocated_clear(7)) simp
        then show ?thesis
          using False Some e by (simp add: select_def selectCurrent_def split_beta)
      next
        case None
        have a1: "allocated (snd (clone i (snd (prune i w))))"
          using Cons.prems by (intro allocated_clone) simp
        have "fst (clone i (snd (prune i w))) < nextId (snd (clone i (snd (prune i w))))" by simp
        then have "allocated (setController c (\<lambda>c. c\<lparr> staging := Some (fst (clone i (snd (prune i w)))),
            current := None, previous := None \<rparr>) (snd (clone i (snd (prune i w)))))"
          using allocated_fill(4)[OF a1] by blast
        from Cons.IH[OF this] show ?thesis
          using False Some None by (simp add: select_def selectCurrent_def split_beta)
      qed
    qed
  qed
qed

lemma finalize_keeps_allocated:
  assumes "finalize fuel this prev out w = Some (out', w')" and "allocated w"
  shows "allocated w'"
proof -
  obtain r1 cur w1 where t: "traverse fuel clearPrevious this w = Some (r1, cur, w1)"
    using assms(1) by (auto simp: finalize_def split: option.splits)
  have a1: "allocated w1"
    by (rule traverse_preserves[where P = allocated, OF _ t assms(2)])
      (auto simp: clearPrevious_def allocated_clear split: if_splits)
  show ?thesis
  proof (cases r1)
    case (Some e)
    then show ?thesis using assms(1) t a1 by (simp add: finalize_def)
  next
    case None
    obtain r2 w2 where p: "pruneOrphans this cur prev w1 = (r2, w2)"
      by (cases "pruneOrphans this cur prev w1")
    have "allocated w2" using allocated_pruneOrphans[OF a1, of this cur prev] p by simp
    then show ?thesis using assms(1) t None p by (cases r2) (auto simp: finalize_def)
  qed
qed

lemma commit_keeps_allocated:
  assumes "commit fuel this w = Some (out, w')" and "allocated w"
  shows "allocated w'"
proof -
  obtain r0 prev w1 where t: "traverse fuel (\<lambda>node w. Inr w) this w = Some (r0, prev, w1)"
    using assms(1) by (auto simp: commit_def split: option.splits)
  have a1: "allocated w1"
    by (rule traverse_preserves[where P = allocated, OF _ t assms(2)]) auto
  show ?thesis
  proof (cases r0)
    case (Some e)
    then show ?thesis using assms(1) t a1 by (simp add: commit_def)
  next
    case None
    obtain res w2 stats fatal where ct: "commitTraversal fuel this w1 = Some (res, w2, stats, fatal)"
      using assms(1) t None by (auto simp: commit_def split: option.splits)
    have a2: "allocated w2" using commitTraversal_keeps_allocated[OF ct a1] .
    show ?thesis
    proof (cases res)
      case (Inr result)
      then have "finalize fuel this prev (if \<not> treeDidUpdate result then Returned Undefined
          else Returned (UpdateSuccess stats)) w2 = Some (out, w')"
        using assms(1) t None ct by (simp add: commit_def)
      then show ?thesis using finalize_keeps_allocated a2 by blast
    next
      case (Inl e0)
      obtain out3 w3 where r: "recover fuel this e0 (w2, stats, fatal) = Some (out3, w3)"
        using assms(1) t None ct Inl by (auto simp: commit_def split: option.splits)
      then have fin: "finalize fuel this prev out3 w3 = Some (out, w')"
        using assms(1) t None ct Inl by (simp add: commit_def)
      have "allocated w3" using recover_keeps_allocated[OF r] a2 by simp
      then show ?thesis using finalize_keeps_allocated[OF fin] by blast
    qed
  qed
qed

lemma requestUpdate_keeps_allocated:
  assumes "requestUpdate fuel this w = Some (out, w')" and "allocated w"
  shows "allocated w'"
proof (cases "fatalError (controllers w this)")
  case (Some e')
  then show ?thesis using assms by (auto simp: requestUpdate_def)
next
  case None
  obtain res w1 nextControllers where d: "dryRun fuel this w = Some (res, w1, nextControllers)"
    using assms None by (auto simp: requestUpdate_def split: option.splits prod.splits)
  have a1: "allocated w1" using dryRun_keeps_allocated[OF d assms(2)] .
  have a1': "allocated (rollback nextControllers w1)"
    using a1 by (simp add: rollback_def allocated_clearUpdate)
  show ?thesis
  proof (cases res)
    case (Inl e0)
    then show ?thesis using assms None d a1 by (auto simp: requestUpdate_def)
  next
    case (Inr initialResult)
    show ?thesis
    proof (cases "\<not> needsDispatch initialResult \<or> hasDecline initialResult \<or> invalidated initialResult \<noteq> []")
      case True
      then show ?thesis
        using assms(1) None d Inr a1 a1'
        by (auto simp: requestUpdate_def split: if_splits prod.splits sum.splits)
    next
      case False
      obtain res2 w2 where l: "(if hasNewCode initialResult then linkTest fuel this nextControllers w1
          else Some (None, w1)) = Some (res2, w2)"
        using assms None d Inr False by (auto simp: requestUpdate_def split: option.splits prod.splits)
      have a2: "allocated w2"
        using l linkTest_keeps_allocated a1 by (auto split: if_splits)
      show ?thesis
      proof (cases res2)
        case None
        then have "commit fuel this w2 = Some (out, w')"
          using assms \<open>fatalError (controllers w this) = None\<close> d Inr False l by (simp add: requestUpdate_def)
        then show ?thesis using commit_keeps_allocated a2 by blast
      next
        case (Some out2)
        then have "w' = w2"
          using assms \<open>fatalError (controllers w this) = None\<close> d Inr False l by (simp add: requestUpdate_def)
        then show ?thesis using a2 by simp
      qed
    qed
  qed
qed

text \<open>The world without modules is allocated, and \<open>load\<close> keeps a world allocated; so the
  example graphs are allocated.\<close>

lemma allocated_emptyWorld: "allocated emptyWorld"
  by (simp add: allocated_def slotsOf_def emptyWorld_def emptyController_def)

lemma nextId_load: "nextId (load this b m u f a lms w) = Suc (Suc (nextId w))"
  by (simp add: load_def Let_def split_beta allocate_def setController_def)

lemma controllers_load:
  "controllers (load this b m u f a lms w) =
     (controllers w)(this := (controllers w this)\<lparr> staging := Some (Suc (nextId w)) \<rparr>)"
  by (simp add: load_def Let_def split_beta)

lemma allocated_load:
  assumes "allocated w"
  shows "allocated (load this b m u f a lms w)"
  unfolding allocated_def
proof (intro allI ballI)
  fix c i assume i: "i \<in> slotsOf (controllers (load this b m u f a lms w) c)"
  have old: "\<And>j. j \<in> slotsOf (controllers w c) \<Longrightarrow> j < nextId w"
    using assms by (simp add: allocated_def)
  have "i = Suc (nextId w) \<or> i \<in> slotsOf (controllers w c)"
    using i by (auto simp: controllers_load slotsOf_def split: if_splits)
  then show "i < nextId (load this b m u f a lms w)"
    using old[of i] by (auto simp: nextId_load)
qed

lemma allocated_loadModule: "allocated w \<Longrightarrow> allocated (loadModule c b deps w)"
  unfolding loadModule_def by (rule allocated_load)

lemma allocated_dispatched: "allocated w \<Longrightarrow> allocated (dispatched w)"
  unfolding dispatched_def using dispatch_keeps_allocated
  by (auto split: option.splits)

lemma allocated_simpleWorld: "allocated simpleWorld"
  unfolding simpleWorld_def
  by (intro allocated_loadModule allocated_dispatched allocated_emptyWorld)


section \<open>load only fills the staging slot\<close>

text \<open>
  C10.  A call of \<open>load\<close> constructs one new instance, of the declaration built from the
  arguments, and puts it into the staging slot of the controller it is called on.  The
  \<open>current\<close>, \<open>pending\<close>, \<open>previous\<close>, \<open>temporary\<close>, \<open>fatalError\<close> and \<open>version\<close> fields of
  that controller keep their values, every other controller is as it was, every other
  instance is as it was, and no user callback has run.  The call takes two names from the
  counter, one for the declaration and one for the instance.  In an allocated world the
  name of the staged instance is held by no slot of any controller before the call, so
  the instance that \<open>load\<close> writes is not part of the live graph, and the world is allocated
  again after the call.  The worlds a program reaches are allocated: the world without
  modules is, and \<open>load\<close>, \<open>dispatch\<close> and \<open>requestUpdate\<close> keep a world allocated (lemmas
  \<open>allocated_emptyWorld\<close>, \<open>allocated_load\<close>, \<open>dispatch_keeps_allocated\<close> and
  \<open>requestUpdate_keeps_allocated\<close>).
\<close>

theorem load_replaces_staging_only:
  "controllers (load this b m u f a lms w) =
     (controllers w)(this := (controllers w this)\<lparr> staging := Some (Suc (nextId w)) \<rparr>)
   \<and> instances (load this b m u f a lms w) =
     (instances w)(Suc (nextId w) := newInstance \<lparr> declId = nextId w, body = b, meta = m,
        format = f, importAssertions = a, usesDynamicImport = u,
        indirectExportEntries = indirectEntriesOf lms, starExportEntries = starEntriesOf lms,
        loadedModules = lms \<rparr>)
   \<and> trace (load this b m u f a lms w) = trace w
   \<and> current (controllers (load this b m u f a lms w) this) = current (controllers w this)
   \<and> pending (controllers (load this b m u f a lms w) this) = pending (controllers w this)
   \<and> previous (controllers (load this b m u f a lms w) this) = previous (controllers w this)
   \<and> temporary (controllers (load this b m u f a lms w) this) = temporary (controllers w this)
   \<and> fatalError (controllers (load this b m u f a lms w) this) = fatalError (controllers w this)
   \<and> version (controllers (load this b m u f a lms w) this) = version (controllers w this)
   \<and> staging (controllers (load this b m u f a lms w) this) = Some (Suc (nextId w))
   \<and> nextId (load this b m u f a lms w) = Suc (Suc (nextId w))
   \<and> (allocated w \<longrightarrow>
        (\<forall>c. Suc (nextId w) \<notin> slotsOf (controllers w c))
      \<and> (\<forall>c. current (controllers w c) \<noteq> Some (Suc (nextId w))
            \<and> pending (controllers w c) \<noteq> Some (Suc (nextId w))
            \<and> previous (controllers w c) \<noteq> Some (Suc (nextId w))
            \<and> staging (controllers w c) \<noteq> Some (Suc (nextId w))
            \<and> temporary (controllers w c) \<noteq> Some (Suc (nextId w)))
      \<and> (\<forall>c i. i \<in> slotsOf (controllers w c) \<longrightarrow>
            instances (load this b m u f a lms w) i = instances w i)
      \<and> allocated (load this b m u f a lms w))"
proof -
  have frame: "controllers (load this b m u f a lms w) =
     (controllers w)(this := (controllers w this)\<lparr> staging := Some (Suc (nextId w)) \<rparr>)
   \<and> instances (load this b m u f a lms w) =
     (instances w)(Suc (nextId w) := newInstance \<lparr> declId = nextId w, body = b, meta = m,
        format = f, importAssertions = a, usesDynamicImport = u,
        indirectExportEntries = indirectEntriesOf lms, starExportEntries = starEntriesOf lms,
        loadedModules = lms \<rparr>)
   \<and> trace (load this b m u f a lms w) = trace w
   \<and> current (controllers (load this b m u f a lms w) this) = current (controllers w this)
   \<and> pending (controllers (load this b m u f a lms w) this) = pending (controllers w this)
   \<and> previous (controllers (load this b m u f a lms w) this) = previous (controllers w this)
   \<and> temporary (controllers (load this b m u f a lms w) this) = temporary (controllers w this)
   \<and> fatalError (controllers (load this b m u f a lms w) this) = fatalError (controllers w this)
   \<and> version (controllers (load this b m u f a lms w) this) = version (controllers w this)
   \<and> staging (controllers (load this b m u f a lms w) this) = Some (Suc (nextId w))"
    by (simp add: load_def Let_def split_beta)
  have fresh: "Suc (nextId w) \<notin> slotsOf (controllers w c)" if "allocated w" for c
  proof
    assume "Suc (nextId w) \<in> slotsOf (controllers w c)"
    then have "Suc (nextId w) < nextId w" using that unfolding allocated_def by blast
    then show False by simp
  qed
  have slots: "current (controllers w c) \<noteq> Some (Suc (nextId w))
      \<and> pending (controllers w c) \<noteq> Some (Suc (nextId w))
      \<and> previous (controllers w c) \<noteq> Some (Suc (nextId w))
      \<and> staging (controllers w c) \<noteq> Some (Suc (nextId w))
      \<and> temporary (controllers w c) \<noteq> Some (Suc (nextId w))" if "allocated w" for c
    using fresh[OF that, of c] by (auto simp: slotsOf_def)
  have live: "instances (load this b m u f a lms w) i = instances w i"
    if "allocated w" "i \<in> slotsOf (controllers w c)" for c i
  proof -
    have "i \<noteq> Suc (nextId w)" using fresh[OF that(1), of c] that(2) by auto
    then show ?thesis using frame by simp
  qed
  show ?thesis
    using frame nextId_load[of this b m u f a lms w] fresh slots live
      allocated_load[of w this b m u f a lms]
    by (intro conjI impI allI) blast+
qed

text \<open>The first \<open>load\<close> of a program, into the world without modules.\<close>

theorem load_replaces_staging_only_witness:
  "allocated emptyWorld
   \<and> staging (controllers (load 0 plainBody None False ''module'' [] [] emptyWorld) 0) = Some 1
   \<and> nextId (load 0 plainBody None False ''module'' [] [] emptyWorld) = 2
   \<and> current (controllers emptyWorld 0) \<noteq> Some 1
   \<and> staging (controllers emptyWorld 0) \<noteq> Some 1
   \<and> allocated (load 0 plainBody None False ''module'' [] [] emptyWorld)"
  using load_replaces_staging_only[of 0 plainBody None False "''module''" "[]" "[]" emptyWorld]
    allocated_emptyWorld
  by (simp add: emptyWorld_def)

section \<open>The selectors of the three traversals\<close>


section \<open>Updates that end in a way the specification does not describe\<close>

text \<open>
  C8.  The root of \<open>failingAcceptWorld\<close> accepts itself and is edited; its accept callback
  fails when the new body has run.  The third traversal then finishes with the result of the
  root's component saying that the tree did update and that the root is invalidated, and
  \<open>requestUpdate\<close> returns \<open>success\<close>.
\<close>

theorem unaccepted_evaluation_is_reported_as_success:
  "map_option fst (commitTraversal 1 0 (beforeCommit failingAcceptWorld)) =
     Some (Inr (RunResult [] [0] True))
   \<and> map_option fst (requestUpdate 1 0 failingAcceptWorld) =
     Some (Returned (UpdateSuccess \<lparr> loads = 1, reevaluations = 0 \<rparr>))"
  by (simp add: model_defs eval_nat_numeral Let_def)

text \<open>
  C9.  The update of \<open>simpleWorld\<close> succeeds (the test \<open>simple test\<close>), and afterwards the
  \<open>previous\<close> slot of the root still holds the instance that was current before the update.
\<close>

theorem previous_of_the_root_survives_success:
  "map_option fst (requestUpdate 2 0 simpleWorld) =
     Some (Returned (UpdateSuccess \<lparr> loads = 1, reevaluations = 1 \<rparr>))
   \<and> map_option (\<lambda>r. current (controllers (snd r) 0)) (requestUpdate 2 0 simpleWorld) = Some (Some 8)
   \<and> map_option (\<lambda>r. previous (controllers (snd r) 0)) (requestUpdate 2 0 simpleWorld) = Some (Some 3)
   \<and> current (controllers simpleWorld 0) = Some 3"
  by (simp add: model_defs eval_nat_numeral Let_def)

text \<open>
  C1.  In \<open>newCycleThrowsWorld\<close> module 1 was edited to import the new module 2, which
  imports module 1 back; the body of module 2 throws.  The two modules are one component.
  Module 2 has no previous instance, so the rollback of the evaluation leaves it without a
  current one, while module 1 keeps its new instance.  The re-link traversal of the \<open>catch\<close>
  block reaches module 2 through the new instance of module 1 and fails the assertion of
  \<open>select\<close>: the call does not return an \<open>evaluationError\<close> result, its promise is rejected.
\<close>

theorem evaluation_error_is_lost_to_an_assertion:
  "map_option fst (commitTraversal 3 0 (beforeCommit newCycleThrowsWorld)) =
     Some (Inl (UserError 7))
   \<and> map_option fst (requestUpdate 3 0 newCycleThrowsWorld) = Some (Thrown AssertionError)"
  by (simp add: model_defs eval_nat_numeral Let_def)

text \<open>In \<open>newImportThrowsWorld\<close> the new module is not yet imported by a current instance when
  its body throws.  The update returns the \<open>evaluationError\<close> result, and the new module keeps
  its pending instance: the re-link traversal does not reach it.\<close>

lemma pending_instance_survives_evaluation_error:
  "map_option fst (requestUpdate 2 0 newImportThrowsWorld) =
     Some (Returned (UpdateEvaluationError (UserError 7) \<lparr> loads = 1, reevaluations = 0 \<rparr>))
   \<and> map_option (\<lambda>r. pending (controllers (snd r) 1)) (requestUpdate 2 0 newImportThrowsWorld) =
     Some (Some 3)"
  by (simp add: model_defs eval_nat_numeral Let_def)

section \<open>The fatal error is sticky\<close>

text \<open>
  C5.  When a call of \<open>requestUpdate\<close> on a controller has returned the result \<open>fatalError\<close>,
  the error is recorded in the \<open>fatalError\<close> field of that controller.  From then on every
  call of \<open>requestUpdate\<close> on that controller returns the same result (results are compared
  as values) with any amount of fuel, also none, so without a step of a traversal, and
  leaves the world as it is, so without running user code.  No operation clears the field:
  it is still set after any \<open>requestUpdate\<close> and any \<open>dispatch\<close> on any controller, and after
  any \<open>load\<close>.
\<close>

theorem fatalError_is_sticky:
  assumes "requestUpdate fuel this w = Some (Returned (UpdateFatalError e), w1)"
  shows "fatalError (controllers w1 this) = Some e
     \<and> (\<forall>fuel'. requestUpdate fuel' this w1 = Some (Returned (UpdateFatalError e), w1))
     \<and> (\<forall>fuel' that out w2. requestUpdate fuel' that w1 = Some (out, w2)
          \<longrightarrow> fatalError (controllers w2 this) = Some e)
     \<and> (\<forall>fuel' that r w2. dispatch fuel' that w1 = Some (r, w2)
          \<longrightarrow> fatalError (controllers w2 this) = Some e)
     \<and> (\<forall>that b m u f a lms. fatalError (controllers (load that b m u f a lms w1) this) = Some e)"
proof -
  have set: "fatalError (controllers w1 this) = Some e"
    using assms by (rule requestUpdate_fatal)
  have again: "requestUpdate fuel' this w1 = Some (Returned (UpdateFatalError e), w1)" for fuel'
    using set by (simp add: requestUpdate_def)
  have update: "fatalError (controllers w2 this) = Some e"
    if "requestUpdate fuel' that w1 = Some (out, w2)" for fuel' that out w2
  proof (cases "that = this")
    case True
    then show ?thesis using that again[of fuel'] set by simp
  next
    case False
    then have "fatals w2 this = fatals w1 this"
      using requestUpdate_keeps_fatals[OF that, of this] by auto
    then show ?thesis using set by (simp add: fatals_def)
  qed
  have disp: "fatalError (controllers w2 this) = Some e"
    if "dispatch fuel' that w1 = Some (r, w2)" for fuel' that r w2
    using dispatch_keeps_fatals[OF that] set by (simp add: fatals_def fun_eq_iff)
  have ld: "fatalError (controllers (load that b m u f a lms w1) this) = Some e" for that b m u f a lms
    using load_keeps_fatals[of that b m u f a lms w1] set by (simp add: fatals_def fun_eq_iff)
  show ?thesis using set again update disp ld by blast
qed

text \<open>The root of \<open>failingDisposeWorld\<close> is edited and its \<open>dispose\<close> callback throws.\<close>

theorem fatalError_is_sticky_witness:
  "\<exists>w1. requestUpdate 1 0 failingDisposeWorld = Some (Returned (UpdateFatalError (UserError 9)), w1)
     \<and> fatalError (controllers w1 0) = Some (UserError 9)
     \<and> requestUpdate 0 0 w1 = Some (Returned (UpdateFatalError (UserError 9)), w1)"
proof -
  have "map_option fst (requestUpdate 1 0 failingDisposeWorld) =
      Some (Returned (UpdateFatalError (UserError 9)))"
    by (simp add: model_defs eval_nat_numeral Let_def)
  then obtain w1 where run:
      "requestUpdate 1 0 failingDisposeWorld = Some (Returned (UpdateFatalError (UserError 9)), w1)"
    by auto
  show ?thesis using fatalError_is_sticky[OF run] run by blast
qed


end
